theory Spec2Isabelle
  imports Main "HOL-Library.Word" "HOL-Library.Signed_Division"
begin

section \<open>Content generator (app.go, writeContent)\<close>

text \<open>
  Go's \<open>int64\<close> is a 64-bit word read as two's complement; \<open>int\<close> is taken to be
  64 bits wide as well (a 64-bit platform), so \<open>int(length)\<close> is the identity.
  A byte is a \<open>char\<close>, a Go string and the unread contents of a \<open>bytes.Buffer\<close>
  are byte lists. The buffer is taken to grow without bound: running out of
  memory is not part of the model.
\<close>

type_synonym byte = char
type_synonym Buffer = "byte list"
type_synonym int64 = "64 word"

text \<open>The only run-time panic the generator's own code could raise.\<close>

datatype panic = IndexOutOfRange

definition CHARSET :: string where
  "CHARSET = ''-ABCDEFGHIJKLMNOPQRSTUVWXYZ''"

text \<open>Indexing a Go string: a panic outside \<open>0 \<le> k < len(s)\<close>.\<close>

definition string_index :: "string \<Rightarrow> int \<Rightarrow> panic + byte" where
  "string_index s k =
     (if 0 \<le> k \<and> k < int (length s) then Inr (s ! nat k) else Inl IndexOutOfRange)"

text \<open>
  \<open>bytes.Buffer.WriteByte\<close> appends one byte to the unread contents;
  \<open>WriteRune\<close> of a rune below \<open>utf8.RuneSelf\<close> (the only rune the source
  writes is \<open>'|'\<close>, 0x7C) is \<open>WriteByte\<close> of that byte. Their error results are
  always nil and the source discards them.
\<close>

definition WriteByte :: "byte \<Rightarrow> Buffer \<Rightarrow> Buffer" where
  "WriteByte c b = b @ [c]"

definition WriteRune :: "char \<Rightarrow> Buffer \<Rightarrow> Buffer" where
  "WriteRune r b = WriteByte r b"

text \<open>
  The loop \<open>for i := 1; i < (int(length) - 1); i++\<close>, entered at index \<open>i\<close>.
  The comparison is signed, the increment is the machine's, and the operator
  \<open>%\<close> truncates towards zero (\<open>smod\<close>).
\<close>

function writeContent_loop :: "int64 \<Rightarrow> int64 \<Rightarrow> Buffer \<Rightarrow> panic + Buffer" where
  "writeContent_loop i n w =
     (if i <s n - 1 then
        (case string_index CHARSET (sint i smod int (length CHARSET)) of
           Inl e \<Rightarrow> Inl e
         | Inr c \<Rightarrow> writeContent_loop (i + 1) n (WriteByte c w))
      else Inr w)"
  by pat_completeness auto

lemma sint_succ:
  fixes i m :: int64
  assumes "i <s m"
  shows "sint (i + 1) = sint i + 1"
proof -
  have "sint i < sint m" using assms by (simp add: word_sless_alt)
  moreover have "sint m < 2 ^ 63" using sint_less [of m] by simp
  moreover have "- (2 ^ 63) \<le> sint i" using sint_ge [of i] by simp
  ultimately have "- (2 ^ 63) \<le> sint i + 1 \<and> sint i + 1 < 2 ^ 63" by linarith
  then have "signed_take_bit 63 (sint i + 1) = sint i + 1"
    by (simp add: signed_take_bit_int_eq_self)
  then show ?thesis by (simp add: sint_word_ariths)
qed

termination writeContent_loop
  by (relation "measure (\<lambda>(i, n, w). nat (sint (n - 1) - sint i))")
     (auto simp: sint_succ word_sless_alt)

declare writeContent_loop.simps [simp del]

definition writeContent :: "Buffer \<Rightarrow> int64 \<Rightarrow> panic + Buffer" where
  "writeContent w len =
     (if len \<le>s 0 then Inr w
      else case writeContent_loop 1 len (WriteRune (CHR ''|'') w) of
             Inl e \<Rightarrow> Inl e
           | Inr w' \<Rightarrow> if 1 <s len then Inr (WriteRune (CHR ''|'') w') else Inr w')"

text \<open>\<open>fillContent\<close>: a fresh, empty \<open>bytes.Buffer\<close> filled by the generator.\<close>

definition fillContent :: "int64 \<Rightarrow> panic + Buffer" where
  "fillContent len = writeContent [] len"

subsection \<open>The pattern in closed form\<close>

text \<open>
  What the specification says the generator writes for a byte count \<open>n\<close>: a
  marker, then \<open>n - 2\<close> bytes taken from the character set at the position
  modulo its size, then a marker. The source's loop is compared with it below.
\<close>

definition filler :: "nat \<Rightarrow> byte" where
  "filler k = CHARSET ! (k mod 27)"

definition content_pattern :: "nat \<Rightarrow> byte list" where
  "content_pattern n =
     (if n = 0 then []
      else CHR ''|'' # map filler [1..<n - 1] @ (if 1 < n then [CHR ''|''] else []))"

lemma length_CHARSET: "length CHARSET = 27"
  by (simp add: CHARSET_def)

lemma string_index_CHARSET:
  assumes "0 \<le> k"
  shows "string_index CHARSET (k smod int (length CHARSET)) = Inr (filler (nat k))"
proof -
  have m: "k smod 27 = k mod 27"
    using assms by (simp add: signed_modulo_int_def sgn_if)
  have "0 \<le> k mod 27" "k mod 27 < 27" by simp_all
  moreover have "nat (k mod 27) = nat k mod 27"
    using assms by (simp add: nat_mod_distrib)
  ultimately show ?thesis
    by (simp add: string_index_def length_CHARSET m filler_def)
qed

lemma sint_pred:
  fixes n :: int64
  assumes "0 <s n"
  shows "sint (n - 1) = sint n - 1"
proof -
  have "0 < sint n" using assms by (simp add: word_sless_alt)
  moreover have "sint n < 2 ^ 63" using sint_less [of n] by simp
  ultimately have "- (2 ^ 63) \<le> sint n - 1 \<and> sint n - 1 < 2 ^ 63" by linarith
  then have "signed_take_bit 63 (sint n - 1) = sint n - 1"
    by (simp add: signed_take_bit_int_eq_self)
  then show ?thesis by (simp add: sint_word_ariths)
qed

lemma writeContent_loop_closed:
  "0 \<le> sint i \<Longrightarrow> 0 <s n \<Longrightarrow>
   writeContent_loop i n w = Inr (w @ map filler [nat (sint i)..<nat (sint n) - 1])"
proof (induction i n w rule: writeContent_loop.induct)
  case (1 i n w)
  show ?case
  proof (cases "i <s n - 1")
    case True
    have s: "sint (i + 1) = sint i + 1" using True by (rule sint_succ)
    have lt: "sint i < sint n - 1"
      using True sint_pred [OF "1.prems"(2)] by (simp add: word_sless_alt)
    have c: "string_index CHARSET (sint i smod int (length CHARSET)) = Inr (filler (nat (sint i)))"
      using "1.prems"(1) by (rule string_index_CHARSET)
    have ih: "writeContent_loop (i + 1) n (WriteByte (filler (nat (sint i))) w)
        = Inr (WriteByte (filler (nat (sint i))) w @ map filler [nat (sint (i + 1))..<nat (sint n) - 1])"
      using "1.IH" [OF True c] "1.prems" s by simp
    have u: "[nat (sint i)..<nat (sint n) - 1]
        = nat (sint i) # [nat (sint (i + 1))..<nat (sint n) - 1]"
    proof -
      have "nat (sint i) < nat (sint n) - 1" using lt "1.prems"(1) by linarith
      moreover have "nat (sint (i + 1)) = Suc (nat (sint i))"
        using s "1.prems"(1) by simp
      ultimately show ?thesis by (simp add: upt_conv_Cons)
    qed
    have "writeContent_loop i n w
        = writeContent_loop (i + 1) n (WriteByte (filler (nat (sint i))) w)"
      by (subst writeContent_loop.simps) (simp add: True c)
    also note ih
    also have "Inr (WriteByte (filler (nat (sint i))) w @ map filler [nat (sint (i + 1))..<nat (sint n) - 1])
        = Inr (w @ map filler [nat (sint i)..<nat (sint n) - 1])"
      unfolding u WriteByte_def by simp
    finally show ?thesis .
  next
    case False
    have "\<not> sint i < sint n - 1"
      using False sint_pred [OF "1.prems"(2)] by (simp add: word_sless_alt)
    then have "[nat (sint i)..<nat (sint n) - 1] = []"
      using "1.prems"(1) by simp
    then show ?thesis
      by (subst writeContent_loop.simps) (simp add: False)
  qed
qed

lemma writeContent_pos:
  assumes "0 <s len"
  shows "writeContent w len = Inr (w @ content_pattern (nat (sint len)))"
proof -
  have p: "0 < sint len" using assms by (simp add: word_sless_alt)
  have n: "\<not> len \<le>s 0" using p by (simp add: word_sle_eq)
  have l: "writeContent_loop 1 len (WriteRune (CHR ''|'') w)
      = Inr (WriteRune (CHR ''|'') w @ map filler [1..<nat (sint len) - 1])"
    using writeContent_loop_closed [of 1 len] assms by simp
  have o: "1 <s len \<longleftrightarrow> 1 < nat (sint len)"
    using p by (simp add: word_sless_alt)
  have "writeContent w len
      = (case writeContent_loop 1 len (WriteRune (CHR ''|'') w) of
           Inl e \<Rightarrow> Inl e
         | Inr w' \<Rightarrow> if 1 <s len then Inr (WriteRune (CHR ''|'') w') else Inr w')"
    unfolding writeContent_def using n by simp
  also have "\<dots> = Inr (w @ content_pattern (nat (sint len)))"
    unfolding l using p by (simp add: o content_pattern_def WriteRune_def WriteByte_def)
  finally show ?thesis .
qed

lemma writeContent_nonpos: "len \<le>s 0 \<Longrightarrow> writeContent w len = Inr w"
  by (simp add: writeContent_def)

lemma writeContent_eq: "writeContent w len = Inr (w @ content_pattern (nat (sint len)))"
proof (cases "0 <s len")
  case True
  then show ?thesis by (rule writeContent_pos)
next
  case False
  then have "sint len \<le> 0" by (simp add: word_sless_alt)
  then show ?thesis by (simp add: writeContent_def word_sle_eq content_pattern_def)
qed

lemma length_content_pattern: "length (content_pattern n) = n"
  by (auto simp: content_pattern_def)

lemma hd_content_pattern: "0 < n \<Longrightarrow> hd (content_pattern n) = CHR ''|''"
  by (simp add: content_pattern_def)

lemma last_content_pattern: "1 < n \<Longrightarrow> last (content_pattern n) = CHR ''|''"
  by (simp add: content_pattern_def)

lemma nth_content_pattern:
  assumes "1 \<le> i" "i + 2 \<le> n"
  shows "content_pattern n ! i = filler i"
proof -
  obtain j where j: "i = Suc j" using assms(1) by (cases i) auto
  have "j < length (map filler [1..<n - 1])" using assms j by simp
  then have "(map filler [1..<n - 1] @ (if 1 < n then [CHR ''|''] else [])) ! j
      = map filler [1..<n - 1] ! j"
    by (simp only: nth_append if_True)
  also have "\<dots> = filler (1 + j)" using assms j by simp
  finally show ?thesis using assms j by (simp add: content_pattern_def)
qed

subsection \<open>Length and boundary markers\<close>

text \<open>
  C1. For every non-negative length \<open>L\<close> the generator returns normally and
  appends exactly \<open>L\<close> bytes to the buffer. For \<open>L \<ge> 2\<close> the first and the last
  appended byte are the marker \<open>|\<close>; for \<open>L = 1\<close> the single marker is appended;
  for \<open>L = 0\<close> nothing is appended and the buffer is unchanged; for \<open>L = 2\<close> the
  appended bytes are the two markers and nothing else.
\<close>

theorem writeContent_length_markers:
  assumes "0 \<le>s L"
  shows "\<exists>written. writeContent w L = Inr (w @ written)
           \<and> int (length written) = sint L
           \<and> (2 \<le>s L \<longrightarrow> hd written = CHR ''|'' \<and> last written = CHR ''|'')
           \<and> (L = 1 \<longrightarrow> written = ''|'')
           \<and> (L = 0 \<longrightarrow> written = [] \<and> writeContent w L = Inr w)
           \<and> (L = 2 \<longrightarrow> written = ''||'')"
proof -
  let ?n = "nat (sint L)"
  have nn: "0 \<le> sint L" using assms by (simp add: word_sle_eq)
  have a: "writeContent w L = Inr (w @ content_pattern ?n)" by (rule writeContent_eq)
  have b: "int (length (content_pattern ?n)) = sint L"
    using nn by (simp add: length_content_pattern)
  have c: "2 \<le>s L \<longrightarrow> hd (content_pattern ?n) = CHR ''|'' \<and> last (content_pattern ?n) = CHR ''|''"
  proof
    assume "2 \<le>s L"
    then have "1 < ?n" by (simp add: word_sle_eq)
    then show "hd (content_pattern ?n) = CHR ''|'' \<and> last (content_pattern ?n) = CHR ''|''"
      by (simp add: hd_content_pattern last_content_pattern)
  qed
  have d: "L = 1 \<longrightarrow> content_pattern ?n = ''|''"
    by (simp add: content_pattern_def)
  have e: "L = 0 \<longrightarrow> content_pattern ?n = [] \<and> writeContent w L = Inr w"
    by (simp add: content_pattern_def writeContent_def)
  have f: "L = 2 \<longrightarrow> content_pattern ?n = ''||''"
    by (simp add: content_pattern_def)
  from a b c d e f show ?thesis by blast
qed

theorem writeContent_length_markers_witness:
  "(0 :: int64) \<le>s 2
   \<and> (\<exists>written. writeContent ''xy'' 2 = Inr (''xy'' @ written)
         \<and> int (length written) = sint (2 :: int64)
         \<and> hd written = CHR ''|'' \<and> last written = CHR ''|''
         \<and> written = ''||'')"
proof -
  have h: "(0 :: int64) \<le>s 2" by (simp add: word_sle_eq)
  show ?thesis using h writeContent_length_markers [OF h, of "''xy''"] by auto
qed

subsection \<open>Character set and filler bytes\<close>

text \<open>
  C2. The character set has exactly 27 symbols in a fixed order: the separator
  \<open>-\<close> followed by the 26 upper-case Latin letters. For every length \<open>L > 2\<close>
  the byte written at position \<open>i\<close> of the output, \<open>1 \<le> i \<le> L - 2\<close> counted from
  zero, is the character at index \<open>i mod 27\<close> of the set. For length 10 the
  content is the 10 bytes \<open>|ABCDEFGH|\<close>.
\<close>

theorem writeContent_filler:
  "length CHARSET = 27
   \<and> CHARSET = CHR ''-'' # ''ABCDEFGHIJKLMNOPQRSTUVWXYZ''
   \<and> (\<forall>L w. 2 <s L \<longrightarrow>
        (\<exists>written. writeContent w L = Inr (w @ written)
           \<and> (\<forall>i. 1 \<le> i \<and> int i \<le> sint L - 2 \<longrightarrow> written ! i = CHARSET ! (i mod 27))))
   \<and> writeContent [] 10 = Inr ''|ABCDEFGH|''"
proof -
  have a: "\<forall>L w. 2 <s L \<longrightarrow>
        (\<exists>written. writeContent w L = Inr (w @ written)
           \<and> (\<forall>i. 1 \<le> i \<and> int i \<le> sint L - 2 \<longrightarrow> written ! i = CHARSET ! (i mod 27)))"
  proof (intro allI impI)
    fix L :: int64 and w :: Buffer
    assume "2 <s L"
    then have l: "2 < sint L" by (simp add: word_sless_alt)
    have "\<forall>i. 1 \<le> i \<and> int i \<le> sint L - 2 \<longrightarrow>
        content_pattern (nat (sint L)) ! i = CHARSET ! (i mod 27)"
    proof (intro allI impI)
      fix i :: nat
      assume "1 \<le> i \<and> int i \<le> sint L - 2"
      then have "1 \<le> i" "i + 2 \<le> nat (sint L)" using l by linarith+
      then show "content_pattern (nat (sint L)) ! i = CHARSET ! (i mod 27)"
        by (simp add: nth_content_pattern filler_def)
    qed
    then show "\<exists>written. writeContent w L = Inr (w @ written)
           \<and> (\<forall>i. 1 \<le> i \<and> int i \<le> sint L - 2 \<longrightarrow> written ! i = CHARSET ! (i mod 27))"
      using writeContent_eq [of w L] by blast
  qed
  have b: "writeContent [] 10 = Inr ''|ABCDEFGH|''"
    by code_simp
  from a b show ?thesis by (simp add: CHARSET_def)
qed

theorem writeContent_filler_witness:
  "(2 :: int64) <s 30
   \<and> (\<exists>written. writeContent [] 30 = Inr written
         \<and> written ! 1 = CHR ''A'' \<and> written ! 26 = CHR ''Z''
         \<and> written ! 27 = CHR ''-'' \<and> written ! 28 = CHR ''A'')"
proof -
  have h: "(2 :: int64) <s 30" by (simp add: word_sless_alt)
  from writeContent_filler h
  obtain written where w: "writeContent [] 30 = Inr ([] @ written)"
    and f: "\<forall>i. 1 \<le> i \<and> int i \<le> sint (30 :: int64) - 2 \<longrightarrow> written ! i = CHARSET ! (i mod 27)"
    by blast
  have "written ! 1 = CHR ''A''" using f [rule_format, of 1] by (simp add: CHARSET_def)
  moreover have "written ! 26 = CHR ''Z''" using f [rule_format, of 26] by (simp add: CHARSET_def)
  moreover have "written ! 27 = CHR ''-''" using f [rule_format, of 27] by (simp add: CHARSET_def)
  moreover have "written ! 28 = CHR ''A''" using f [rule_format, of 28] by (simp add: CHARSET_def)
  ultimately show ?thesis using h w by simp
qed

section \<open>Buffer pool (buffer_pool.go)\<close>

text \<open>
  A \<open>*PooledBuffer\<close> is an address into a store of buffers, so that the pool
  and a handler can hold the same buffer. \<open>heap\<close> gives the unread contents of
  every \<open>PooledBuffer\<close> allocated so far, \<open>next_addr\<close> is the next address
  \<open>new(PooledBuffer)\<close> returns, and \<open>bufferPool\<close> lists the pointers that
  \<open>sync.Pool\<close> currently holds.
\<close>

type_synonym addr = nat

record pool_world =
  heap :: "addr \<Rightarrow> Buffer"
  next_addr :: addr
  bufferPool :: "addr list"

definition init_pool :: pool_world where
  "init_pool = \<lparr>heap = (\<lambda>_. []), next_addr = 0, bufferPool = []\<rparr>"

text \<open>
  \<open>sync.Pool\<close>: \<open>Get\<close> removes and returns an arbitrary pooled item, or
  ignores the pool and calls \<open>New\<close>. The choice is the run-time's, so it is an
  argument: \<open>Some k\<close> takes the \<open>k\<close>-th pooled pointer when there is one,
  anything else allocates. \<open>Put\<close> adds a pointer to the pool.
\<close>

definition Pool_New :: "pool_world \<Rightarrow> addr \<times> pool_world" where
  "Pool_New s =
     (next_addr s, s\<lparr>heap := (heap s)(next_addr s := []), next_addr := Suc (next_addr s)\<rparr>)"

definition Pool_Get :: "nat option \<Rightarrow> pool_world \<Rightarrow> addr \<times> pool_world" where
  "Pool_Get ch s =
     (case ch of
        None \<Rightarrow> Pool_New s
      | Some k \<Rightarrow>
          if k < length (bufferPool s)
          then (bufferPool s ! k,
                s\<lparr>bufferPool := take k (bufferPool s) @ drop (Suc k) (bufferPool s)\<rparr>)
          else Pool_New s)"

definition Pool_Put :: "addr \<Rightarrow> pool_world \<Rightarrow> pool_world" where
  "Pool_Put b s = s\<lparr>bufferPool := b # bufferPool s\<rparr>"

text \<open>
  \<open>bufferPoolProfile\<close> is the \<open>dummyProfile\<close>, whose \<open>Add\<close> and
  \<open>Remove\<close> do nothing; with the \<open>pprof\<close> profile of the other variants of the
  file they only record the pointer for profiling.
\<close>

definition GetPooledBuffer :: "nat option \<Rightarrow> pool_world \<Rightarrow> addr \<times> pool_world" where
  "GetPooledBuffer ch s = Pool_Get ch s"

text \<open>\<open>bytes.Buffer.Reset\<close> empties the buffer; \<open>Close\<close> resets, then puts.\<close>

definition Reset :: "addr \<Rightarrow> pool_world \<Rightarrow> pool_world" where
  "Reset b s = s\<lparr>heap := (heap s)(b := [])\<rparr>"

definition Close :: "addr \<Rightarrow> pool_world \<Rightarrow> pool_world" where
  "Close b s = Pool_Put b (Reset b s)"

definition Len :: "addr \<Rightarrow> pool_world \<Rightarrow> nat" where
  "Len b s = length (heap s b)"

definition Bytes :: "addr \<Rightarrow> pool_world \<Rightarrow> byte list" where
  "Bytes b s = heap s b"

text \<open>\<open>fillContentPooled\<close> (app.go): acquire a pooled buffer, let the generator write into it.\<close>

definition fillContentPooled ::
  "nat option \<Rightarrow> int64 \<Rightarrow> pool_world \<Rightarrow> panic + (addr \<times> pool_world)" where
  "fillContentPooled ch len s =
     (case GetPooledBuffer ch s of
        (b, s1) \<Rightarrow>
          (case writeContent (heap s1 b) len of
             Inl e \<Rightarrow> Inl e
           | Inr w \<Rightarrow> Inr (b, s1\<lparr>heap := (heap s1)(b := w)\<rparr>)))"

text \<open>
  The pool's invariant: no pointer is pooled twice, and every pooled buffer was
  allocated and is empty. It holds of the empty pool and every operation above
  keeps it, as long as a buffer is written only while it is checked out and is
  closed once, which is how \<open>dataHandler\<close> uses it.
\<close>

definition pool_inv :: "pool_world \<Rightarrow> bool" where
  "pool_inv s \<longleftrightarrow>
     distinct (bufferPool s) \<and> (\<forall>a \<in> set (bufferPool s). a < next_addr s \<and> heap s a = [])"

lemma pool_inv_init: "pool_inv init_pool"
  by (simp add: pool_inv_def init_pool_def)

lemma distinct_remove_nth:
  "distinct xs \<Longrightarrow> k < length xs \<Longrightarrow>
   distinct (take k xs @ drop (Suc k) xs) \<and> xs ! k \<notin> set (take k xs @ drop (Suc k) xs)
   \<and> set (take k xs @ drop (Suc k) xs) \<subseteq> set xs"
proof -
  assume d: "distinct xs" and k: "k < length xs"
  have xs: "xs = take k xs @ xs ! k # drop (Suc k) xs"
    using k by (rule id_take_nth_drop)
  have "distinct (take k xs @ xs ! k # drop (Suc k) xs)" using d xs by simp
  then have "distinct (take k xs @ drop (Suc k) xs) \<and> xs ! k \<notin> set (take k xs @ drop (Suc k) xs)"
    by auto
  moreover have "set (take k xs @ drop (Suc k) xs) \<subseteq> set xs"
    by (auto dest: in_set_takeD in_set_dropD)
  ultimately show ?thesis by simp
qed

lemma GetPooledBuffer_empty:
  assumes "pool_inv s" "GetPooledBuffer ch s = (b, s1)"
  shows "heap s1 b = [] \<and> pool_inv s1 \<and> b \<notin> set (bufferPool s1) \<and> b < next_addr s1"
proof (cases "\<exists>k. ch = Some k \<and> k < length (bufferPool s)")
  case True
  then obtain k where k: "ch = Some k" "k < length (bufferPool s)" by blast
  have b: "b = bufferPool s ! k"
    and s1: "s1 = s\<lparr>bufferPool := take k (bufferPool s) @ drop (Suc k) (bufferPool s)\<rparr>"
    using assms(2) k by (simp_all add: GetPooledBuffer_def Pool_Get_def)
  have m: "b \<in> set (bufferPool s)" using b k by simp
  have d: "distinct (bufferPool s)" using assms(1) by (simp add: pool_inv_def)
  note r = distinct_remove_nth [OF d k(2)]
  show ?thesis
    using assms(1) m r unfolding pool_inv_def s1 b by auto
next
  case False
  then have "(b, s1) = Pool_New s"
    using assms(2) by (auto simp: GetPooledBuffer_def Pool_Get_def split: option.splits)
  then have b: "b = next_addr s"
    and s1: "s1 = s\<lparr>heap := (heap s)(next_addr s := []), next_addr := Suc (next_addr s)\<rparr>"
    by (simp_all add: Pool_New_def)
  show ?thesis
    using assms(1) unfolding pool_inv_def s1 b by auto
qed

lemma Close_resets: "heap (Close b s) b = [] \<and> b \<in> set (bufferPool (Close b s))"
  by (simp add: Close_def Pool_Put_def Reset_def)

lemma pool_inv_write:
  "pool_inv s \<Longrightarrow> b \<notin> set (bufferPool s) \<Longrightarrow> pool_inv (s\<lparr>heap := (heap s)(b := w)\<rparr>)"
  by (auto simp: pool_inv_def)

lemma pool_inv_Close:
  "pool_inv s \<Longrightarrow> b \<notin> set (bufferPool s) \<Longrightarrow> b < next_addr s \<Longrightarrow> pool_inv (Close b s)"
  by (auto simp: pool_inv_def Close_def Pool_Put_def Reset_def)

lemma fillContentPooled_eq:
  assumes "pool_inv s"
  shows "\<exists>b s1. fillContentPooled ch len s = Inr (b, s1)
           \<and> heap s1 b = content_pattern (nat (sint len))
           \<and> pool_inv s1 \<and> b \<notin> set (bufferPool s1) \<and> b < next_addr s1"
proof -
  obtain b s0 where g: "GetPooledBuffer ch s = (b, s0)" by (cases "GetPooledBuffer ch s")
  note e = GetPooledBuffer_empty [OF assms g]
  have w: "writeContent (heap s0 b) len = Inr (content_pattern (nat (sint len)))"
    using e writeContent_eq [of "heap s0 b" len] by simp
  let ?s1 = "s0\<lparr>heap := (heap s0)(b := content_pattern (nat (sint len)))\<rparr>"
  have "fillContentPooled ch len s = Inr (b, ?s1)"
    by (simp add: fillContentPooled_def g w)
  moreover have "pool_inv ?s1" using e by (simp add: pool_inv_write)
  moreover have "heap ?s1 b = content_pattern (nat (sint len))" by simp
  moreover have "b \<notin> set (bufferPool ?s1)" "b < next_addr ?s1" using e by simp_all
  ultimately show ?thesis by blast
qed

subsection \<open>Reuse without leaking data\<close>

text \<open>
  C6. \<open>Close\<close> resets a buffer to length zero before it puts it into the
  pool, for every buffer and every state. Hence, from a pool that satisfies its
  invariant: acquire a buffer and fill it for a size \<open>N\<close> (it then holds
  \<open>max 0 N\<close> bytes), release it, acquire again; whichever buffer the pool hands
  out the second time has length 0.
\<close>

theorem pooled_buffer_reuse_empty:
  assumes "pool_inv s"
  shows "Len b0 (Close b0 s0) = 0 \<and> b0 \<in> set (bufferPool (Close b0 s0))
         \<and> (\<exists>b s1. fillContentPooled c1 N s = Inr (b, s1)
               \<and> int (Len b s1) = max 0 (sint N)
               \<and> Len b (Close b s1) = 0
               \<and> b \<in> set (bufferPool (Close b s1))
               \<and> pool_inv (Close b s1)
               \<and> (\<forall>c2. Len (fst (GetPooledBuffer c2 (Close b s1)))
                            (snd (GetPooledBuffer c2 (Close b s1))) = 0))"
proof -
  from fillContentPooled_eq [OF assms, of c1 N]
  obtain b s1 where f: "fillContentPooled c1 N s = Inr (b, s1)"
    and h: "heap s1 b = content_pattern (nat (sint N))"
    and i: "pool_inv s1" "b \<notin> set (bufferPool s1)" "b < next_addr s1"
    by blast
  have l: "int (Len b s1) = max 0 (sint N)"
    by (simp add: Len_def h length_content_pattern)
  have c: "pool_inv (Close b s1)" using i by (rule pool_inv_Close)
  have r: "\<forall>c2. Len (fst (GetPooledBuffer c2 (Close b s1)))
                    (snd (GetPooledBuffer c2 (Close b s1))) = 0"
  proof
    fix c2
    obtain b' s2 where g: "GetPooledBuffer c2 (Close b s1) = (b', s2)"
      by (cases "GetPooledBuffer c2 (Close b s1)")
    from GetPooledBuffer_empty [OF c g] show
      "Len (fst (GetPooledBuffer c2 (Close b s1))) (snd (GetPooledBuffer c2 (Close b s1))) = 0"
      by (simp add: g Len_def)
  qed
  have "Len b0 (Close b0 s0) = 0 \<and> b0 \<in> set (bufferPool (Close b0 s0))"
    using Close_resets [of b0 s0] by (simp add: Len_def)
  moreover have "Len b (Close b s1) = 0 \<and> b \<in> set (bufferPool (Close b s1))"
    using Close_resets [of b s1] by (simp add: Len_def)
  ultimately show ?thesis using f l c r by blast
qed

theorem pooled_buffer_reuse_empty_witness:
  "pool_inv init_pool
   \<and> (\<exists>b s1. fillContentPooled None 5 init_pool = Inr (b, s1)
         \<and> Len b s1 = 5
         \<and> Len b (Close b s1) = 0
         \<and> GetPooledBuffer (Some 0) (Close b s1) = (b, s1\<lparr>heap := (heap s1)(b := [])\<rparr>)
         \<and> Len (fst (GetPooledBuffer (Some 0) (Close b s1)))
                (snd (GetPooledBuffer (Some 0) (Close b s1))) = 0)"
proof -
  have inv: "pool_inv init_pool"
    by (simp add: pool_inv_def init_pool_def)
  from pooled_buffer_reuse_empty [OF inv, of 0 init_pool None 5]
  obtain b s1 where f: "fillContentPooled None 5 init_pool = Inr (b, s1)"
    and l: "int (Len b s1) = max 0 (sint (5 :: int64))"
    and c: "Len b (Close b s1) = 0"
    and r: "\<forall>c2. Len (fst (GetPooledBuffer c2 (Close b s1)))
                     (snd (GetPooledBuffer c2 (Close b s1))) = 0"
    by blast
  have "Len b s1 = 5" using l by simp
  moreover have "GetPooledBuffer (Some 0) (Close b s1) = (b, s1\<lparr>heap := (heap s1)(b := [])\<rparr>)"
    by (simp add: GetPooledBuffer_def Pool_Get_def Close_def Pool_Put_def Reset_def)
  ultimately show ?thesis using inv f c r by blast
qed

subsection \<open>Determinism\<close>

text \<open>
  C9. The generator is deterministic: for one length \<open>L\<close>, two fills of freshly
  acquired buffers, from any two pools that satisfy the invariant and whatever
  buffers the pools hand out, leave the same bytes in both buffers, the bytes a
  fresh \<open>bytes.Buffer\<close> gets, which are a function of \<open>L\<close> alone.
\<close>

theorem fill_deterministic:
  assumes "pool_inv s" and "pool_inv s'"
  shows "\<exists>b s1 b' s1'.
           fillContentPooled ch L s = Inr (b, s1)
           \<and> fillContentPooled ch' L s' = Inr (b', s1')
           \<and> Bytes b s1 = Bytes b' s1'
           \<and> fillContent L = Inr (Bytes b s1)
           \<and> Bytes b s1 = content_pattern (nat (sint L))"
proof -
  from fillContentPooled_eq [OF assms(1), of ch L]
  obtain b s1 where 1: "fillContentPooled ch L s = Inr (b, s1)"
    "heap s1 b = content_pattern (nat (sint L))" by blast
  from fillContentPooled_eq [OF assms(2), of ch' L]
  obtain b' s1' where 2: "fillContentPooled ch' L s' = Inr (b', s1')"
    "heap s1' b' = content_pattern (nat (sint L))" by blast
  have "fillContent L = Inr (content_pattern (nat (sint L)))"
    using writeContent_eq [of "[]" L] by (simp add: fillContent_def)
  then show ?thesis using 1 2 by (auto simp: Bytes_def)
qed

theorem fill_deterministic_witness:
  "pool_inv init_pool
   \<and> pool_inv \<lparr>heap = (\<lambda>_. []), next_addr = 3, bufferPool = [2, 0]\<rparr>
   \<and> (\<exists>b s1 b' s1'.
         fillContentPooled None 4 init_pool = Inr (b, s1)
         \<and> fillContentPooled (Some 1) 4 \<lparr>heap = (\<lambda>_. []), next_addr = 3, bufferPool = [2, 0]\<rparr>
               = Inr (b', s1')
         \<and> Bytes b s1 = Bytes b' s1'
         \<and> fillContent 4 = Inr (Bytes b s1)
         \<and> Bytes b s1 = ''|AB|'')"
proof -
  have 1: "pool_inv init_pool"
    by (simp add: pool_inv_def init_pool_def)
  have 2: "pool_inv \<lparr>heap = (\<lambda>_. []), next_addr = 3, bufferPool = [2, 0]\<rparr>"
    by (simp add: pool_inv_def)
  have "fillContent 4 = Inr ''|AB|''" by code_simp
  then show ?thesis
    using 1 2 fill_deterministic [OF 1 2, of None 4 "Some 1"] by auto
qed

section \<open>Data route (app.go, dataHandler)\<close>

text \<open>The units: \<open>KB int64 = 1 << (10 * iota)\<close> with \<open>iota\<close> from 1 to 4.\<close>

definition KB :: int64 where "KB = push_bit (10 * 1) 1"
definition MB :: int64 where "MB = push_bit (10 * 2) 1"
definition GB :: int64 where "GB = push_bit (10 * 3) 1"
definition TB :: int64 where "TB = push_bit (10 * 4) 1"

text \<open>
  \<open>url.Values\<close> maps a key to the list of its values; \<open>Get\<close> is the first
  value, or the empty string when the key is missing.
\<close>

type_synonym Values = "string \<rightharpoonup> string list"

definition Values_Get :: "Values \<Rightarrow> string \<Rightarrow> string" where
  "Values_Get v key = (case v key of None \<Rightarrow> [] | Some [] \<Rightarrow> [] | Some (x # _) \<Rightarrow> x)"

text \<open>
  The standard library's \<open>strconv.ParseInt(s, 10, 64)\<close>, as documented: an
  optional sign, then decimal digits only; \<open>ErrSyntax\<close> for anything else and
  for the empty string, \<open>ErrRange\<close> when the value does not fit 64 signed bits.
  \<open>ParseUint_loop\<close> is the digit loop of \<open>ParseUint\<close> with its two overflow
  checks against \<open>maxUint64\<close>.
\<close>

datatype NumError = ErrSyntax | ErrRange

definition is_digit :: "char \<Rightarrow> bool" where
  "is_digit c \<longleftrightarrow> (48 :: nat) \<le> of_char c \<and> of_char c \<le> (57 :: nat)"

definition digit_val :: "char \<Rightarrow> nat" where
  "digit_val c = of_char c - 48"

fun ParseUint_loop :: "string \<Rightarrow> nat \<Rightarrow> NumError + nat" where
  "ParseUint_loop [] n = Inr n"
| "ParseUint_loop (c # cs) n =
     (if \<not> is_digit c then Inl ErrSyntax
      else if n \<ge> (2 ^ 64 - 1) div 10 + 1 then Inl ErrRange
      else if n * 10 + digit_val c > 2 ^ 64 - 1 then Inl ErrRange
      else ParseUint_loop cs (n * 10 + digit_val c))"

definition ParseUint :: "string \<Rightarrow> NumError + nat" where
  "ParseUint s = (if s = [] then Inl ErrSyntax else ParseUint_loop s 0)"

definition ParseInt :: "string \<Rightarrow> NumError + int64" where
  "ParseInt s =
     (if s = [] then Inl ErrSyntax
      else
        let neg = (hd s = CHR ''-'');
            s' = (if hd s = CHR ''+'' \<or> hd s = CHR ''-'' then tl s else s)
        in case ParseUint s' of
             Inl e \<Rightarrow> Inl e
           | Inr un \<Rightarrow>
               if \<not> neg \<and> un \<ge> 2 ^ 63 then Inl ErrRange
               else if neg \<and> un > 2 ^ 63 then Inl ErrRange
               else Inr (if neg then - of_nat un else of_nat un))"

text \<open>\<open>strconv.ParseBool\<close>.\<close>

definition ParseBool :: "string \<Rightarrow> NumError + bool" where
  "ParseBool s =
     (if s \<in> {''1'', ''t'', ''T'', ''true'', ''TRUE'', ''True''} then Inr True
      else if s \<in> {''0'', ''f'', ''F'', ''false'', ''FALSE'', ''False''} then Inr False
      else Inl ErrSyntax)"

text \<open>
  \<open>strings.ToLower\<close>: on a string of ASCII bytes it adds \<open>'a' - 'A'\<close> to every
  upper-case letter. On any other string it applies the Unicode lower-case
  mapping, whose tables are the library's: that mapping is the argument
  \<open>uni\<close>, and everything below holds for every \<open>uni\<close>.
\<close>

definition lower_ascii :: "char \<Rightarrow> char" where
  "lower_ascii c =
     (if (65 :: nat) \<le> of_char c \<and> of_char c \<le> (90 :: nat)
      then char_of (of_char c + (32 :: nat)) else c)"

definition ToLower :: "(string \<Rightarrow> string) \<Rightarrow> string \<Rightarrow> string" where
  "ToLower uni s =
     (if \<forall>c \<in> set s. of_char c < (128 :: nat) then map lower_ascii s else uni s)"

text \<open>
  The handler's size: \<open>parseSize\<close> is the parsing, default and clamp,
  \<open>scaleUnit\<close> the \<open>switch\<close> on the lower-cased unit, \<open>dataSize\<close> the two
  in the handler's order. \<open>*=\<close> on \<open>int64\<close> wraps around.
\<close>

definition parseSize :: "Values \<Rightarrow> int64" where
  "parseSize q =
     (let sz = (case ParseInt (Values_Get q ''size'') of Inl err \<Rightarrow> 1 | Inr v \<Rightarrow> v)
      in if sz <s 0 then 0 else sz)"

definition scaleUnit :: "(string \<Rightarrow> string) \<Rightarrow> string \<Rightarrow> int64 \<Rightarrow> int64" where
  "scaleUnit uni unit sz =
     (let u = ToLower uni unit
      in if u = ''kb'' then sz * KB
         else if u = ''mb'' then sz * MB
         else if u = ''gb'' then sz * GB
         else if u = ''tb'' then sz * TB
         else sz)"

definition dataSize :: "(string \<Rightarrow> string) \<Rightarrow> Values \<Rightarrow> int64" where
  "dataSize uni q = scaleUnit uni (Values_Get q ''unit'') (parseSize q)"

text \<open>
  What a handler does to its \<open>http.ResponseWriter\<close> is the list of the calls it
  makes with it, in order: \<open>w.Header().Add\<close>, \<open>w.WriteHeader\<close>, \<open>w.Write\<close>,
  \<open>http.ServeContent\<close> with the name and the bytes it is given (the reader over
  \<open>content.Bytes()\<close>; the modification time is left out), and \<open>http.Error\<close>
  with message and code. What \<open>net/http\<close> then sends for these calls is not
  part of the model. \<open>served_bytes\<close> are the payload bytes among the calls.
\<close>

datatype w_call =
    HeaderAdd string string
  | WriteHeader int64
  | Write "byte list"
  | ServeContent string "byte list"
  | Error string int64

fun payload :: "w_call \<Rightarrow> byte list" where
  "payload (Write bs) = bs"
| "payload (ServeContent name bs) = bs"
| "payload c = []"

definition served_bytes :: "w_call list \<Rightarrow> byte list" where
  "served_bytes calls = concat (map payload calls)"

text \<open>
  \<open>io.Copy(w, content)\<close> uses the buffer's \<open>WriteTo\<close>: a buffer with unread
  bytes hands all of them to \<open>w\<close> in one \<open>Write\<close>, whose error, if any, is the
  result; an empty buffer makes no call. The error of that \<open>Write\<close> is the
  connection's and so an argument.
\<close>

definition io_Copy :: "string option \<Rightarrow> byte list \<Rightarrow> w_call list \<times> string option" where
  "io_Copy write_err bs = (if bs = [] then ([], None) else ([Write bs], write_err))"

text \<open>
  \<open>dataHandler\<close>, from the parsed query on. The pool's choice and the error of
  the connection come from the environment and are arguments. The deferred
  \<open>Close\<close> runs on every return; it resets the buffer, whatever \<open>io.Copy\<close> has
  consumed of it.
\<close>

definition dataHandler ::
  "(string \<Rightarrow> string) \<Rightarrow> Values \<Rightarrow> nat option \<Rightarrow> string option \<Rightarrow> pool_world
     \<Rightarrow> panic + (w_call list \<times> pool_world)" where
  "dataHandler uni q ch write_err s =
     (let sz = dataSize uni q;
          attachment = (case ParseBool (Values_Get q ''attachment'') of
                          Inl err \<Rightarrow> False | Inr a \<Rightarrow> a)
      in case fillContentPooled ch sz s of
           Inl p \<Rightarrow> Inl p
         | Inr (content, s1) \<Rightarrow>
             if attachment
             then Inr ([HeaderAdd ''Content-Disposition'' ''Attachment'',
                        ServeContent ''data.txt'' (Bytes content s1)],
                       Close content s1)
             else (case io_Copy write_err (Bytes content s1) of
                     (calls, None) \<Rightarrow> Inr (calls, Close content s1)
                   | (calls, Some err) \<Rightarrow> Inr (calls @ [Error err 500], Close content s1)))"

lemma lower_ascii_units:
  "lower_ascii CHR ''K'' = CHR ''k''" "lower_ascii CHR ''M'' = CHR ''m''"
  "lower_ascii CHR ''G'' = CHR ''g''" "lower_ascii CHR ''T'' = CHR ''t''"
  "lower_ascii CHR ''B'' = CHR ''b''" "lower_ascii CHR ''k'' = CHR ''k''"
  "lower_ascii CHR ''m'' = CHR ''m''" "lower_ascii CHR ''g'' = CHR ''g''"
  "lower_ascii CHR ''t'' = CHR ''t''" "lower_ascii CHR ''b'' = CHR ''b''"
  by (simp_all add: lower_ascii_def char_of_def bit_Suc_0_iff)

lemma unit_values: "KB = 1024" "MB = 1024 ^ 2" "GB = 1024 ^ 3" "TB = 1024 ^ 4"
  by (simp_all add: KB_def MB_def GB_def TB_def)

lemma ToLower_kb: "u \<in> {''kb'', ''kB'', ''Kb'', ''KB''} \<Longrightarrow> ToLower uni u = ''kb''"
  by (auto simp: ToLower_def lower_ascii_units)

lemma ToLower_mb: "u \<in> {''mb'', ''mB'', ''Mb'', ''MB''} \<Longrightarrow> ToLower uni u = ''mb''"
  by (auto simp: ToLower_def lower_ascii_units)

lemma ToLower_gb: "u \<in> {''gb'', ''gB'', ''Gb'', ''GB''} \<Longrightarrow> ToLower uni u = ''gb''"
  by (auto simp: ToLower_def lower_ascii_units)

lemma ToLower_tb: "u \<in> {''tb'', ''tB'', ''Tb'', ''TB''} \<Longrightarrow> ToLower uni u = ''tb''"
  by (auto simp: ToLower_def lower_ascii_units)

lemma parseSize_missing: "q ''size'' = None \<Longrightarrow> parseSize q = 1"
  by (simp add: parseSize_def Values_Get_def ParseInt_def word_sless_alt)

lemma parseSize_malformed: "ParseInt (Values_Get q ''size'') = Inl e \<Longrightarrow> parseSize q = 1"
  by (simp add: parseSize_def word_sless_alt)

lemma parseSize_parsed:
  "ParseInt (Values_Get q ''size'') = Inr v \<Longrightarrow> parseSize q = (if v <s 0 then 0 else v)"
  by (simp add: parseSize_def)

lemma parseSize_nonneg: "0 \<le>s parseSize q"
  by (auto simp: parseSize_def Let_def word_sle_eq word_sless_alt split: sum.splits)

lemma dataHandler_served:
  assumes "pool_inv s"
  shows "\<exists>calls b s1.
           fillContentPooled ch (dataSize uni q) s = Inr (b, s1)
           \<and> dataHandler uni q ch ce s = Inr (calls, Close b s1)
           \<and> Bytes b s1 = content_pattern (nat (sint (dataSize uni q)))
           \<and> pool_inv (Close b s1)
           \<and> served_bytes calls = Bytes b s1"
proof -
  from fillContentPooled_eq [OF assms, of ch "dataSize uni q"]
  obtain b s1 where f: "fillContentPooled ch (dataSize uni q) s = Inr (b, s1)"
    and h: "heap s1 b = content_pattern (nat (sint (dataSize uni q)))"
    and i: "pool_inv s1" "b \<notin> set (bufferPool s1)" "b < next_addr s1"
    by blast
  have c: "pool_inv (Close b s1)" using i by (rule pool_inv_Close)
  show ?thesis
    using f h c
    by (cases ce; cases "ParseBool (Values_Get q ''attachment'')")
       (auto simp: dataHandler_def Bytes_def io_Copy_def served_bytes_def)
qed

text \<open>
  Requests served one after the other, each with its own query and its own
  choices of the environment. The invariant of the pool holds of every state
  reached this way from the empty pool, and no request panics.
\<close>

fun serve_data ::
  "(string \<Rightarrow> string) \<Rightarrow> (Values \<times> nat option \<times> string option) list \<Rightarrow> pool_world
     \<Rightarrow> panic + pool_world" where
  "serve_data uni [] s = Inr s"
| "serve_data uni ((q, ch, we) # rs) s =
     (case dataHandler uni q ch we s of
        Inl p \<Rightarrow> Inl p
      | Inr (calls, s') \<Rightarrow> serve_data uni rs s')"

lemma serve_data_pool_inv:
  "pool_inv s \<Longrightarrow> \<exists>s'. serve_data uni rs s = Inr s' \<and> pool_inv s'"
proof (induction rs arbitrary: s)
  case Nil
  then show ?case by simp
next
  case (Cons r rs)
  obtain q ch we where r: "r = (q, ch, we)" by (cases r)
  from dataHandler_served [OF Cons.prems, of ch uni q we]
  obtain calls b s1 where d: "dataHandler uni q ch we s = Inr (calls, Close b s1)"
    and i: "pool_inv (Close b s1)" by blast
  from Cons.IH [OF i] show ?case by (simp add: r d)
qed

lemma serve_data_from_empty_pool:
  "\<exists>s'. serve_data uni rs init_pool = Inr s' \<and> pool_inv s'"
  by (rule serve_data_pool_inv [OF pool_inv_init])

subsection \<open>Size, clamp and unit\<close>

text \<open>
  C7. On the data route, for every query: a missing size and a size that does
  not parse give 1; a parsed negative size gives 0, any other parsed size
  itself. A unit that is \<open>kb\<close>, \<open>mb\<close>, \<open>gb\<close> or \<open>tb\<close> in any mix of
  upper and lower case multiplies that clamped size by 1024, \<open>1024\<^sup>2\<close>,
  \<open>1024\<^sup>3\<close> or \<open>1024\<^sup>4\<close>; a unit whose lower-cased form is none of the four
  leaves it as it is. The generator then runs with that final byte count only:
  the bytes the handler serves are those of a fill for exactly that count.
\<close>

theorem dataHandler_size_unit:
  "(q ''size'' = None \<longrightarrow> parseSize q = 1)
   \<and> (\<forall>e. ParseInt (Values_Get q ''size'') = Inl e \<longrightarrow> parseSize q = 1)
   \<and> (\<forall>v. ParseInt (Values_Get q ''size'') = Inr v \<longrightarrow> parseSize q = (if v <s 0 then 0 else v))
   \<and> (\<forall>u n. u \<in> {''kb'', ''kB'', ''Kb'', ''KB''} \<longrightarrow> scaleUnit uni u n = n * 1024)
   \<and> (\<forall>u n. u \<in> {''mb'', ''mB'', ''Mb'', ''MB''} \<longrightarrow> scaleUnit uni u n = n * 1024 ^ 2)
   \<and> (\<forall>u n. u \<in> {''gb'', ''gB'', ''Gb'', ''GB''} \<longrightarrow> scaleUnit uni u n = n * 1024 ^ 3)
   \<and> (\<forall>u n. u \<in> {''tb'', ''tB'', ''Tb'', ''TB''} \<longrightarrow> scaleUnit uni u n = n * 1024 ^ 4)
   \<and> (\<forall>u n. ToLower uni u \<notin> {''kb'', ''mb'', ''gb'', ''tb''} \<longrightarrow> scaleUnit uni u n = n)
   \<and> dataSize uni q = scaleUnit uni (Values_Get q ''unit'') (parseSize q)
   \<and> (\<forall>ch ce s. pool_inv s \<longrightarrow>
         (\<exists>calls b s1.
            fillContentPooled ch (dataSize uni q) s = Inr (b, s1)
            \<and> dataHandler uni q ch ce s = Inr (calls, Close b s1)
            \<and> fillContent (dataSize uni q) = Inr (served_bytes calls)))"
proof -
  have a: "q ''size'' = None \<longrightarrow> parseSize q = 1"
    by (simp add: parseSize_missing)
  have b: "\<forall>e. ParseInt (Values_Get q ''size'') = Inl e \<longrightarrow> parseSize q = 1"
    by (simp add: parseSize_malformed)
  have c: "\<forall>v. ParseInt (Values_Get q ''size'') = Inr v \<longrightarrow> parseSize q = (if v <s 0 then 0 else v)"
    by (simp add: parseSize_parsed)
  have d: "\<forall>u n. u \<in> {''kb'', ''kB'', ''Kb'', ''KB''} \<longrightarrow> scaleUnit uni u n = n * 1024"
    using ToLower_kb [of _ uni] by (simp add: scaleUnit_def unit_values)
  have e: "\<forall>u n. u \<in> {''mb'', ''mB'', ''Mb'', ''MB''} \<longrightarrow> scaleUnit uni u n = n * 1024 ^ 2"
    using ToLower_mb [of _ uni] by (simp add: scaleUnit_def unit_values)
  have f: "\<forall>u n. u \<in> {''gb'', ''gB'', ''Gb'', ''GB''} \<longrightarrow> scaleUnit uni u n = n * 1024 ^ 3"
    using ToLower_gb [of _ uni] by (simp add: scaleUnit_def unit_values)
  have g: "\<forall>u n. u \<in> {''tb'', ''tB'', ''Tb'', ''TB''} \<longrightarrow> scaleUnit uni u n = n * 1024 ^ 4"
    using ToLower_tb [of _ uni] by (simp add: scaleUnit_def unit_values)
  have h: "\<forall>u n. ToLower uni u \<notin> {''kb'', ''mb'', ''gb'', ''tb''} \<longrightarrow> scaleUnit uni u n = n"
    by (simp add: scaleUnit_def)
  have i: "dataSize uni q = scaleUnit uni (Values_Get q ''unit'') (parseSize q)"
    by (simp add: dataSize_def)
  have j: "\<forall>ch ce s. pool_inv s \<longrightarrow>
         (\<exists>calls b s1.
            fillContentPooled ch (dataSize uni q) s = Inr (b, s1)
            \<and> dataHandler uni q ch ce s = Inr (calls, Close b s1)
            \<and> fillContent (dataSize uni q) = Inr (served_bytes calls))"
  proof (intro allI impI)
    fix ch ce s
    assume "pool_inv s"
    from dataHandler_served [OF this, of ch uni q ce]
    obtain calls b s1 where
      1: "fillContentPooled ch (dataSize uni q) s = Inr (b, s1)"
      and 2: "dataHandler uni q ch ce s = Inr (calls, Close b s1)"
      and 3: "served_bytes calls = content_pattern (nat (sint (dataSize uni q)))"
      by auto
    have "fillContent (dataSize uni q) = Inr (served_bytes calls)"
      using writeContent_eq [of "[]" "dataSize uni q"] 3 by (simp add: fillContent_def)
    then show "\<exists>calls b s1.
            fillContentPooled ch (dataSize uni q) s = Inr (b, s1)
            \<and> dataHandler uni q ch ce s = Inr (calls, Close b s1)
            \<and> fillContent (dataSize uni q) = Inr (served_bytes calls)"
      using 1 2 by blast
  qed
  from a b c d e f g h i j show ?thesis by blast
qed

theorem dataHandler_size_unit_witness:
  "parseSize Map.empty = 1
   \<and> parseSize [''size'' \<mapsto> [''12ab'']] = 1
   \<and> parseSize [''size'' \<mapsto> [''-5'']] = 0
   \<and> parseSize [''size'' \<mapsto> [''3'']] = 3
   \<and> scaleUnit id ''Kb'' 3 = 3072
   \<and> scaleUnit id ''TB'' 1 = 1099511627776
   \<and> scaleUnit id ''bytes'' 3 = 3
   \<and> pool_inv init_pool
   \<and> (\<exists>b s1. dataHandler id [''size'' \<mapsto> [''3'']] None None init_pool
                  = Inr ([Write ''|A|''], Close b s1))"
proof -
  let ?q = "[''size'' \<mapsto> [''3'']] :: Values"
  note pi = ParseInt_def ParseUint_def is_digit_def digit_val_def Values_Get_def
  note c1 = conjunct1 and c2 = conjunct2
  note T = dataHandler_size_unit
  have 1: "parseSize Map.empty = 1"
    using T [of Map.empty id, THEN c1] by simp
  have "ParseInt (Values_Get [''size'' \<mapsto> [''12ab'']] ''size'') = Inl ErrSyntax"
    by (simp add: pi)
  then have 2: "parseSize [''size'' \<mapsto> [''12ab'']] = 1"
    by (rule T [THEN c2, THEN c1, rule_format])
  have "ParseInt (Values_Get [''size'' \<mapsto> [''-5'']] ''size'') = Inr (- 5)"
    by (simp add: pi)
  then have "parseSize [''size'' \<mapsto> [''-5'']] = (if (- 5 :: int64) <s 0 then 0 else - 5)"
    by (rule T [THEN c2, THEN c2, THEN c1, rule_format])
  then have 3: "parseSize [''size'' \<mapsto> [''-5'']] = 0"
    by (simp add: word_sless_alt)
  have "ParseInt (Values_Get ?q ''size'') = Inr 3"
    by (simp add: pi)
  then have "parseSize ?q = (if (3 :: int64) <s 0 then 0 else 3)"
    by (rule T [THEN c2, THEN c2, THEN c1, rule_format])
  then have 4: "parseSize ?q = 3"
    by (simp add: word_sless_alt)
  have "''Kb'' \<in> {''kb'', ''kB'', ''Kb'', ''KB''}" by simp
  then have "scaleUnit id ''Kb'' 3 = 3 * 1024"
    by (rule T [THEN c2, THEN c2, THEN c2, THEN c1, rule_format])
  then have 5: "scaleUnit id ''Kb'' 3 = 3072" by simp
  have "''TB'' \<in> {''tb'', ''tB'', ''Tb'', ''TB''}" by simp
  then have "scaleUnit id ''TB'' 1 = 1 * 1024 ^ 4"
    by (rule T [THEN c2, THEN c2, THEN c2, THEN c2, THEN c2, THEN c2, THEN c1, rule_format])
  then have 6: "scaleUnit id ''TB'' 1 = 1099511627776" by simp
  have "ToLower id ''bytes'' \<notin> {''kb'', ''mb'', ''gb'', ''tb''}"
    by (simp add: ToLower_def lower_ascii_def)
  then have 7: "scaleUnit id ''bytes'' 3 = 3"
    by (rule T [THEN c2, THEN c2, THEN c2, THEN c2, THEN c2, THEN c2, THEN c2, THEN c1,
                rule_format])
  have "ToLower id (Values_Get ?q ''unit'') \<notin> {''kb'', ''mb'', ''gb'', ''tb''}"
    by (simp add: ToLower_def Values_Get_def)
  then have "scaleUnit id (Values_Get ?q ''unit'') (parseSize ?q) = parseSize ?q"
    by (rule T [THEN c2, THEN c2, THEN c2, THEN c2, THEN c2, THEN c2, THEN c2, THEN c1,
                rule_format])
  then have sz: "dataSize id ?q = 3"
    using T [of ?q id, THEN c2, THEN c2, THEN c2, THEN c2, THEN c2, THEN c2, THEN c2, THEN c2,
             THEN c1] 4
    by simp
  have inv: "pool_inv init_pool"
    by (simp add: pool_inv_def init_pool_def)
  have f: "fillContent 3 = Inr ''|A|''"
    by code_simp
  from T [of ?q id, THEN c2, THEN c2, THEN c2, THEN c2, THEN c2, THEN c2, THEN c2, THEN c2,
          THEN c2, rule_format, OF inv, of None None]
  obtain calls b s1 where
    g: "fillContentPooled None (dataSize id ?q) init_pool = Inr (b, s1)"
    and d: "dataHandler id ?q None None init_pool = Inr (calls, Close b s1)"
    and e: "fillContent (dataSize id ?q) = Inr (served_bytes calls)"
    by blast
  have sb: "served_bytes calls = ''|A|''" using e f sz by simp
  have a: "ParseBool (Values_Get ?q ''attachment'') = Inl ErrSyntax"
    by (simp add: ParseBool_def Values_Get_def)
  have cp: "content_pattern (nat (sint (3 :: int64))) = ''|A|''"
    using f writeContent_eq [of "[]" 3] by (simp add: fillContent_def)
  have "Bytes b s1 = ''|A|''"
    using fillContentPooled_eq [OF inv, of None 3] g sz cp
    by (auto simp: Bytes_def)
  then have "dataHandler id ?q None None init_pool = Inr ([Write ''|A|''], Close b s1)"
    using g by (simp add: dataHandler_def sz a io_Copy_def)
  then have 8: "\<exists>b s1. dataHandler id ?q None None init_pool = Inr ([Write ''|A|''], Close b s1)"
    by blast
  from 1 2 3 4 5 6 7 inv 8 show ?thesis by blast
qed

lemma scaleUnit_mult:
  "scaleUnit uni u n =
     n * (if ToLower uni u = ''kb'' then 1024
          else if ToLower uni u = ''mb'' then 1024 ^ 2
          else if ToLower uni u = ''gb'' then 1024 ^ 3
          else if ToLower uni u = ''tb'' then 1024 ^ 4
          else 1)"
  by (simp add: scaleUnit_def unit_values)

lemma wrap_example:
  "parseSize [''size'' \<mapsto> [''8388608''], ''unit'' \<mapsto> [''tb'']] = 8388608"
  "dataSize uni [''size'' \<mapsto> [''8388608''], ''unit'' \<mapsto> [''tb'']] = - 9223372036854775808"
  by (simp_all add: dataSize_def scaleUnit_def parseSize_def Values_Get_def ToLower_def
      lower_ascii_units ParseInt_def ParseUint_def is_digit_def digit_val_def unit_values
      word_sless_alt)

subsection \<open>Wrap-around and totality\<close>

text \<open>
  C10. The unit scaling is a 64-bit multiplication that wraps: the result is
  the product modulo \<open>2\<^sup>6\<^sup>4\<close>. A large size with a large unit can wrap to a
  value that is not positive: size 8388608 with unit \<open>tb\<close> gives \<open>- 2\<^sup>6\<^sup>3\<close>.
  For every length that is not positive the generator writes nothing and
  returns normally. For every length it returns normally, having written
  either nothing or the complete pattern, and so does the handler, which then
  serves nothing or the complete pattern.
\<close>

theorem data_path_wrapping_total:
  "(\<forall>uni u n.
      uint (scaleUnit uni u n) =
        (uint n * (if ToLower uni u = ''kb'' then 1024
                   else if ToLower uni u = ''mb'' then 1024 ^ 2
                   else if ToLower uni u = ''gb'' then 1024 ^ 3
                   else if ToLower uni u = ''tb'' then 1024 ^ 4
                   else 1)) mod 2 ^ 64)
   \<and> (\<forall>uni. 0 <s parseSize [''size'' \<mapsto> [''8388608''], ''unit'' \<mapsto> [''tb'']]
          \<and> sint (dataSize uni [''size'' \<mapsto> [''8388608''], ''unit'' \<mapsto> [''tb'']]) = - (2 ^ 63)
          \<and> dataSize uni [''size'' \<mapsto> [''8388608''], ''unit'' \<mapsto> [''tb'']] \<le>s 0)
   \<and> (\<forall>len w. len \<le>s 0 \<longrightarrow> writeContent w len = Inr w)
   \<and> (\<forall>len w. writeContent w len = Inr w
          \<or> (0 <s len \<and> writeContent w len = Inr (w @ content_pattern (nat (sint len)))))
   \<and> (\<forall>uni q ch ce s. pool_inv s \<longrightarrow>
         (\<exists>calls b s1. dataHandler uni q ch ce s = Inr (calls, Close b s1)
            \<and> (dataSize uni q \<le>s 0 \<longrightarrow> served_bytes calls = [])
            \<and> (0 <s dataSize uni q \<longrightarrow>
                  served_bytes calls = content_pattern (nat (sint (dataSize uni q))))))"
proof -
  have a: "\<forall>uni u n.
      uint (scaleUnit uni u n) =
        (uint n * (if ToLower uni u = ''kb'' then 1024
                   else if ToLower uni u = ''mb'' then 1024 ^ 2
                   else if ToLower uni u = ''gb'' then 1024 ^ 3
                   else if ToLower uni u = ''tb'' then 1024 ^ 4
                   else 1)) mod 2 ^ 64"
  proof (intro allI)
    fix uni u and n :: int64
    show "uint (scaleUnit uni u n) =
        (uint n * (if ToLower uni u = ''kb'' then 1024
                   else if ToLower uni u = ''mb'' then 1024 ^ 2
                   else if ToLower uni u = ''gb'' then 1024 ^ 3
                   else if ToLower uni u = ''tb'' then 1024 ^ 4
                   else 1)) mod 2 ^ 64"
      unfolding scaleUnit_mult [of uni u n]
      by (simp add: uint_word_ariths)
  qed
  have b: "\<forall>uni. 0 <s parseSize [''size'' \<mapsto> [''8388608''], ''unit'' \<mapsto> [''tb'']]
          \<and> sint (dataSize uni [''size'' \<mapsto> [''8388608''], ''unit'' \<mapsto> [''tb'']]) = - (2 ^ 63)
          \<and> dataSize uni [''size'' \<mapsto> [''8388608''], ''unit'' \<mapsto> [''tb'']] \<le>s 0"
    unfolding wrap_example by (simp add: word_sless_alt word_sle_eq)
  have c: "\<forall>len w. len \<le>s 0 \<longrightarrow> writeContent w len = Inr w"
    by (simp add: writeContent_nonpos)
  have d: "\<forall>len w. writeContent w len = Inr w
          \<or> (0 <s len \<and> writeContent w len = Inr (w @ content_pattern (nat (sint len))))"
  proof (intro allI)
    fix len :: int64 and w :: Buffer
    show "writeContent w len = Inr w
          \<or> (0 <s len \<and> writeContent w len = Inr (w @ content_pattern (nat (sint len))))"
    proof (cases "0 <s len")
      case True
      then show ?thesis by (simp add: writeContent_pos)
    next
      case False
      then have "len \<le>s 0" by (simp add: word_sless_alt word_sle_eq)
      then show ?thesis by (simp add: writeContent_nonpos)
    qed
  qed
  have e: "\<forall>uni q ch ce s. pool_inv s \<longrightarrow>
         (\<exists>calls b s1. dataHandler uni q ch ce s = Inr (calls, Close b s1)
            \<and> (dataSize uni q \<le>s 0 \<longrightarrow> served_bytes calls = [])
            \<and> (0 <s dataSize uni q \<longrightarrow>
                  served_bytes calls = content_pattern (nat (sint (dataSize uni q)))))"
  proof (intro allI impI)
    fix uni q ch ce s
    assume "pool_inv s"
    from dataHandler_served [OF this, of ch uni q ce]
    obtain calls b s1 where
      1: "dataHandler uni q ch ce s = Inr (calls, Close b s1)"
      and 2: "served_bytes calls = content_pattern (nat (sint (dataSize uni q)))"
      by auto
    have "dataSize uni q \<le>s 0 \<longrightarrow> served_bytes calls = []"
      using 2 by (simp add: word_sle_eq content_pattern_def)
    then show "\<exists>calls b s1. dataHandler uni q ch ce s = Inr (calls, Close b s1)
            \<and> (dataSize uni q \<le>s 0 \<longrightarrow> served_bytes calls = [])
            \<and> (0 <s dataSize uni q \<longrightarrow>
                  served_bytes calls = content_pattern (nat (sint (dataSize uni q))))"
      using 1 2 by blast
  qed
  from a b c d e show ?thesis by blast
qed

theorem data_path_wrapping_total_witness:
  "(- 1024 :: int64) \<le>s 0
   \<and> writeContent ''ab'' (- 1024) = Inr ''ab''
   \<and> pool_inv init_pool
   \<and> (\<exists>b s1. dataHandler id [''size'' \<mapsto> [''8388608''], ''unit'' \<mapsto> [''tb'']] None None init_pool
                  = Inr ([], Close b s1))"
proof -
  let ?q = "[''size'' \<mapsto> [''8388608''], ''unit'' \<mapsto> [''tb'']] :: Values"
  note c1 = conjunct1 and c2 = conjunct2
  note T = data_path_wrapping_total
  have n: "(- 1024 :: int64) \<le>s 0" by (simp add: word_sle_eq)
  then have w: "writeContent ''ab'' (- 1024) = Inr ''ab''"
    by (rule T [THEN c2, THEN c2, THEN c1, rule_format])
  have inv: "pool_inv init_pool"
    by (simp add: pool_inv_def init_pool_def)
  have le: "dataSize id ?q \<le>s 0"
    by (rule T [THEN c2, THEN c1, rule_format, THEN c2, THEN c2])
  from T [THEN c2, THEN c2, THEN c2, THEN c2, rule_format, OF inv, of id ?q None None]
  obtain calls b s1 where
    d: "dataHandler id ?q None None init_pool = Inr (calls, Close b s1)"
    and e: "dataSize id ?q \<le>s 0 \<longrightarrow> served_bytes calls = []"
    by blast
  have sb: "served_bytes calls = []" using e le by simp
  have a: "ParseBool (Values_Get ?q ''attachment'') = Inl ErrSyntax"
    by (simp add: ParseBool_def Values_Get_def)
  obtain b0 s0 where g: "fillContentPooled None (dataSize id ?q) init_pool = Inr (b0, s0)"
    and h: "heap s0 b0 = content_pattern (nat (sint (dataSize id ?q)))"
    using fillContentPooled_eq [OF inv, of None "dataSize id ?q"] by blast
  have "Bytes b0 s0 = []"
    using h le by (simp add: Bytes_def word_sle_eq content_pattern_def)
  then have "dataHandler id ?q None None init_pool = Inr ([], Close b0 s0)"
    by (simp add: dataHandler_def a g io_Copy_def)
  then have "\<exists>b s1. dataHandler id ?q None None init_pool = Inr ([], Close b s1)"
    by blast
  moreover have "calls = []" using d \<open>dataHandler id ?q None None init_pool = Inr ([], Close b0 s0)\<close>
    by simp
  ultimately show ?thesis using n w inv sb by blast
qed

section \<open>Health state (app.go, healthHandler)\<close>

text \<open>
  The package variable \<open>currentHealthState\<close> holds one Go \<open>int\<close>, initially
  \<open>http.StatusOK\<close>. The handler reads or writes it inside one critical section
  of \<open>mutexHealthState\<close>, so a handler call is one atomic step on the state and
  concurrent calls take effect in some order, one after the other.
\<close>

record healthState =
  StatusCode :: int64

definition currentHealthState :: healthState where
  "currentHealthState = \<lparr>StatusCode = 200\<rparr>"

subsection \<open>The response writer of net/http\<close>

text \<open>
  The claims on the health route are about the status the client receives, so
  the \<open>http.ResponseWriter\<close> of the server is part of the model here: whether the
  final header has been written, its status, and the informational (1xx)
  statuses sent before it. Header fields and the body are left out.
\<close>

record response =
  wroteHeader :: bool
  status :: int64
  informational :: "int64 list"

definition new_response :: response where
  "new_response = \<lparr>wroteHeader = False, status = 0, informational = []\<rparr>"

text \<open>\<open>checkWriteHeaderCode\<close> panics unless the code has three digits.\<close>

datatype http_panic = InvalidWriteHeaderCode int64

text \<open>
  \<open>WriteHeader\<close>: a second final header is ignored; a code outside 100..999
  panics; a 1xx code that the library treats as informational is sent at once
  and leaves the final header open; any other code is the final status. Which
  1xx codes are informational is the library version's (all of them, or all but
  101 Switching Protocols): it is the argument \<open>info\<close>, asked for the codes
  100..199 only, and everything below holds for every \<open>info\<close>.
  \<open>informational_1xx\<close> is the rule that excepts 101.
\<close>

definition response_WriteHeader ::
  "(int64 \<Rightarrow> bool) \<Rightarrow> int64 \<Rightarrow> response \<Rightarrow> http_panic + response" where
  "response_WriteHeader info code w =
     (if wroteHeader w then Inr w
      else if code <s 100 \<or> 999 <s code then Inl (InvalidWriteHeaderCode code)
      else if 100 \<le>s code \<and> code \<le>s 199 \<and> info code
      then Inr (w\<lparr>informational := informational w @ [code]\<rparr>)
      else Inr (w\<lparr>wroteHeader := True, status := code\<rparr>))"

definition informational_1xx :: "int64 \<Rightarrow> bool" where
  "informational_1xx code \<longleftrightarrow> code \<noteq> 101"

text \<open>
  \<open>http.Error\<close> sets header fields, calls \<open>WriteHeader\<close> with the code and
  prints the message into the body. When the handler returns without a final
  header, the server writes the header with \<open>http.StatusOK\<close>.
\<close>

definition http_Error :: "(int64 \<Rightarrow> bool) \<Rightarrow> int64 \<Rightarrow> response \<Rightarrow> http_panic + response" where
  "http_Error info code w = response_WriteHeader info code w"

definition finishRequest :: "response \<Rightarrow> response" where
  "finishRequest w = (if wroteHeader w then w else w\<lparr>wroteHeader := True, status := 200\<rparr>)"

subsection \<open>The JSON decoder\<close>

text \<open>
  \<open>json.NewDecoder(req.Body).Decode(&statusCode)\<close> with \<open>statusCode\<close> a fresh
  \<open>int\<close>, as the standard library documents and implements it. The decoder
  skips white space and reads one JSON value from the front of the body; what
  follows the value is left unread and is no error. The value \<open>null\<close> leaves
  \<open>statusCode\<close> at zero without an error. A number is stored when its literal
  has neither fraction nor exponent and \<open>strconv.ParseInt\<close> accepts it. Every
  other front of a body is an error: a syntax error, an unexpected end, or a
  value that is no number. The kind and text of the error are left out.
\<close>

datatype json_error = DecodeError

definition isSpace :: "char \<Rightarrow> bool" where
  "isSpace c \<longleftrightarrow> c = CHR '' '' \<or> c = CHR 0x09 \<or> c = CHR 0x0D \<or> c = CHR 0x0A"

text \<open>
  The integer part of a number literal at the front of \<open>s\<close>, as the scanner
  takes it, and the rest: an optional minus, then a single \<open>0\<close> or a non-zero
  digit with all digits that follow.
\<close>

definition scan_int :: "string \<Rightarrow> (string \<times> string) option" where
  "scan_int s =
     (let sign = (if s \<noteq> [] \<and> hd s = CHR ''-'' then ''-'' else []);
          r = (if s \<noteq> [] \<and> hd s = CHR ''-'' then tl s else s)
      in case r of
           [] \<Rightarrow> None
         | d # r' \<Rightarrow>
             if d = CHR ''0'' then Some (sign @ [d], r')
             else if is_digit d
             then Some (sign @ d # takeWhile is_digit r', dropWhile is_digit r')
             else None)"

definition Decode :: "string \<Rightarrow> json_error + int64" where
  "Decode body =
     (let s = dropWhile isSpace body
      in case s of
           [] \<Rightarrow> Inl DecodeError
         | c # _ \<Rightarrow>
             if c = CHR ''n'' then (if take 4 s = ''null'' then Inr 0 else Inl DecodeError)
             else if c = CHR ''-'' \<or> is_digit c then
               (case scan_int s of
                  None \<Rightarrow> Inl DecodeError
                | Some (lit, rest) \<Rightarrow>
                    if rest \<noteq> [] \<and> (hd rest = CHR ''.'' \<or> hd rest = CHR ''e'' \<or> hd rest = CHR ''E'')
                    then Inl DecodeError
                    else (case ParseInt lit of
                            Inl e \<Rightarrow> Inl DecodeError
                          | Inr v \<Rightarrow> Inr v))
             else Inl DecodeError)"

subsection \<open>The handler\<close>

text \<open>
  Of a request the handler uses the method and the body. A panic leaves the
  state as it is: the only one is raised by \<open>WriteHeader\<close> on the read path,
  where the deferred \<open>RUnlock\<close> releases the lock and the server closes the
  connection without a response. The handler's line on standard output is left
  out.
\<close>

record Request =
  Method :: string
  Body :: string

definition healthHandler ::
  "(int64 \<Rightarrow> bool) \<Rightarrow> Request \<Rightarrow> healthState \<Rightarrow> http_panic + (response \<times> healthState)" where
  "healthHandler info req st =
     (if Method req = ''POST'' then
        (case Decode (Body req) of
           Inl err \<Rightarrow>
             (case http_Error info 400 new_response of
                Inl p \<Rightarrow> Inl p
              | Inr w \<Rightarrow> Inr (finishRequest w, st))
         | Inr statusCode \<Rightarrow> Inr (finishRequest new_response, st\<lparr>StatusCode := statusCode\<rparr>))
      else
        (case response_WriteHeader info (StatusCode st) new_response of
           Inl p \<Rightarrow> Inl p
         | Inr w \<Rightarrow> Inr (finishRequest w, st)))"

text \<open>
  Requests served one after the other; the server recovers from a panic and
  goes on with the state as it is. The requests that write the state are the
  \<open>POST\<close>s whose body decodes.
\<close>

definition state_after :: "(int64 \<Rightarrow> bool) \<Rightarrow> Request \<Rightarrow> healthState \<Rightarrow> healthState" where
  "state_after info r st =
     (case healthHandler info r st of Inl p \<Rightarrow> st | Inr (w, st') \<Rightarrow> st')"

fun serve_health :: "(int64 \<Rightarrow> bool) \<Rightarrow> Request list \<Rightarrow> healthState \<Rightarrow> healthState" where
  "serve_health info [] st = st"
| "serve_health info (r # rs) st = serve_health info rs (state_after info r st)"

definition is_writer :: "Request \<Rightarrow> bool" where
  "is_writer r \<longleftrightarrow>
     Method r = ''POST'' \<and> (case Decode (Body r) of Inl err \<Rightarrow> False | Inr code \<Rightarrow> True)"

lemma http_Error_400:
  "http_Error info 400 new_response = Inr \<lparr>wroteHeader = True, status = 400, informational = []\<rparr>"
  by (simp add: http_Error_def response_WriteHeader_def new_response_def word_sless_alt
      word_sle_eq)

lemma healthHandler_post_error:
  "Decode body = Inl e \<Longrightarrow>
   healthHandler info \<lparr>Method = ''POST'', Body = body\<rparr> st
     = Inr (\<lparr>wroteHeader = True, status = 400, informational = []\<rparr>, st)"
  by (simp add: healthHandler_def http_Error_400 finishRequest_def)

lemma healthHandler_post_ok:
  "Decode body = Inr code \<Longrightarrow>
   healthHandler info \<lparr>Method = ''POST'', Body = body\<rparr> st
     = Inr (\<lparr>wroteHeader = True, status = 200, informational = []\<rparr>, \<lparr>StatusCode = code\<rparr>)"
  by (simp add: healthHandler_def finishRequest_def new_response_def)

lemma healthHandler_read:
  assumes "Method rd \<noteq> ''POST''"
  shows "healthHandler info rd \<lparr>StatusCode = code\<rparr> =
     (if code <s 100 \<or> 999 <s code then Inl (InvalidWriteHeaderCode code)
      else if 100 \<le>s code \<and> code \<le>s 199 \<and> info code
      then Inr (\<lparr>wroteHeader = True, status = 200, informational = [code]\<rparr>, \<lparr>StatusCode = code\<rparr>)
      else Inr (\<lparr>wroteHeader = True, status = code, informational = []\<rparr>, \<lparr>StatusCode = code\<rparr>))"
  using assms
  by (simp add: healthHandler_def response_WriteHeader_def new_response_def finishRequest_def)

lemma state_after_no_writer: "\<not> is_writer r \<Longrightarrow> state_after info r st = st"
proof (cases "Method r = ''POST''")
  case True
  assume "\<not> is_writer r"
  then obtain e where "Decode (Body r) = Inl e"
    using True by (cases "Decode (Body r)") (auto simp: is_writer_def)
  then show ?thesis
    using True by (simp add: state_after_def healthHandler_def http_Error_400)
next
  case False
  then show ?thesis
    by (cases "response_WriteHeader info (StatusCode st) new_response")
       (simp_all add: state_after_def healthHandler_def)
qed

lemma serve_health_no_writer:
  "\<forall>r \<in> set rs. \<not> is_writer r \<Longrightarrow> serve_health info rs st = st"
  by (induction rs arbitrary: st) (simp_all add: state_after_no_writer)

lemma serve_health_write:
  assumes "Decode body = Inr code" and "\<forall>r \<in> set between. \<not> is_writer r"
  shows "serve_health info (\<lparr>Method = ''POST'', Body = body\<rparr> # between) st = \<lparr>StatusCode = code\<rparr>"
  using assms
  by (simp add: state_after_def healthHandler_post_ok serve_health_no_writer)

subsection \<open>What the decoder accepts\<close>

lemma is_digit_not_space: "is_digit c \<Longrightarrow> \<not> isSpace c"
  by (auto simp: is_digit_def isSpace_def)

lemma is_digit_not_minus: "is_digit c \<Longrightarrow> c \<noteq> CHR ''-''"
  by (auto simp: is_digit_def)

lemma dropWhile_space_front:
  assumes "\<forall>c \<in> set ws. isSpace c" and "x \<noteq> []" and "\<not> isSpace (hd x)"
  shows "dropWhile isSpace (ws @ x) = x"
proof -
  have "dropWhile isSpace (ws @ x) = dropWhile isSpace x"
    using assms(1) by simp
  also have "\<dots> = x" using assms(2,3) by (cases x) simp_all
  finally show ?thesis .
qed

lemma Decode_null:
  assumes "\<forall>c \<in> set ws. isSpace c"
  shows "Decode (ws @ ''null'' @ rest) = Inr 0"
proof -
  have "dropWhile isSpace (ws @ (''null'' @ rest)) = ''null'' @ rest"
    using assms by (intro dropWhile_space_front) (simp_all add: isSpace_def)
  then show ?thesis by (simp add: Decode_def)
qed

lemma Decode_other_front:
  assumes "dropWhile isSpace body = []
           \<or> (hd (dropWhile isSpace body) \<noteq> CHR ''n''
               \<and> hd (dropWhile isSpace body) \<noteq> CHR ''-''
               \<and> \<not> is_digit (hd (dropWhile isSpace body)))"
  shows "Decode body = Inl DecodeError"
proof (cases "dropWhile isSpace body")
  case Nil
  show ?thesis unfolding Decode_def Nil by simp
next
  case (Cons c cs)
  then have "c \<noteq> CHR ''n''" "c \<noteq> CHR ''-''" "\<not> is_digit c"
    using assms by simp_all
  then show ?thesis unfolding Decode_def Cons by simp
qed

lemma scan_int_literal:
  assumes "sign = [] \<or> sign = ''-''"
    and "ds \<noteq> []" and "\<forall>c \<in> set ds. is_digit c"
    and "hd ds = CHR ''0'' \<longrightarrow> ds = ''0''"
    and "rest = [] \<or> \<not> is_digit (hd rest)"
  shows "scan_int (sign @ ds @ rest) = Some (sign @ ds, rest)"
proof -
  obtain d ds' where ds: "ds = d # ds'" using assms(2) by (cases ds) auto
  have dd: "is_digit d" and dr: "\<forall>c \<in> set ds'. is_digit c" using assms(3) ds by simp_all
  have nm: "d \<noteq> CHR ''-''" using dd by (rule is_digit_not_minus)
  have tr: "takeWhile is_digit rest = []" "dropWhile is_digit rest = rest"
    using assms(5) by (cases rest; simp)+
  have tw: "takeWhile is_digit (ds' @ rest) = ds'"
    using dr tr by simp
  have dw: "dropWhile is_digit (ds' @ rest) = rest"
    using dr tr by simp
  show ?thesis
  proof (cases "d = CHR ''0''")
    case True
    then have "ds' = []" using assms(4) ds by simp
    then show ?thesis using assms(1) True ds by (auto simp: scan_int_def)
  next
    case False
    then show ?thesis using assms(1) ds dd nm tw dw by (auto simp: scan_int_def)
  qed
qed

lemma Decode_front:
  assumes "dropWhile isSpace body = c # cs"
  shows "Decode body =
     (if c = CHR ''n'' then (if take 4 (c # cs) = ''null'' then Inr 0 else Inl DecodeError)
      else if c = CHR ''-'' \<or> is_digit c then
        (case scan_int (c # cs) of
           None \<Rightarrow> Inl DecodeError
         | Some (lit, rest) \<Rightarrow>
             if rest \<noteq> [] \<and> (hd rest = CHR ''.'' \<or> hd rest = CHR ''e'' \<or> hd rest = CHR ''E'')
             then Inl DecodeError
             else (case ParseInt lit of Inl e \<Rightarrow> Inl DecodeError | Inr v \<Rightarrow> Inr v))
      else Inl DecodeError)"
  unfolding Decode_def assms by simp

lemma Decode_integer_front:
  assumes "\<forall>c \<in> set ws. isSpace c"
    and "sign = [] \<or> sign = ''-''"
    and "ds \<noteq> []" and "\<forall>c \<in> set ds. is_digit c"
    and "hd ds = CHR ''0'' \<longrightarrow> ds = ''0''"
    and "rest = [] \<or> (\<not> is_digit (hd rest) \<and> hd rest \<noteq> CHR ''.''
                       \<and> hd rest \<noteq> CHR ''e'' \<and> hd rest \<noteq> CHR ''E'')"
    and "ParseInt (sign @ ds) = Inr v"
  shows "Decode (ws @ sign @ ds @ rest) = Inr v"
proof -
  obtain d ds' where ds: "ds = d # ds'" using assms(3) by (cases ds) auto
  have dd: "is_digit d" using assms(4) ds by simp
  define s where "s = sign @ ds @ rest"
  have ne: "s \<noteq> []" using assms(3) by (simp add: s_def)
  have hs: "hd s = CHR ''-'' \<or> is_digit (hd s)"
    using assms(2) ds dd by (auto simp: s_def)
  then have sp: "\<not> isSpace (hd s)"
    by (auto simp: isSpace_def is_digit_def)
  have dw: "dropWhile isSpace (ws @ s) = s"
    using assms(1) ne sp by (rule dropWhile_space_front)
  have r: "rest = [] \<or> \<not> is_digit (hd rest)" using assms(6) by blast
  have sc: "scan_int s = Some (sign @ ds, rest)"
    unfolding s_def using assms(2) assms(3) assms(4) assms(5) r by (rule scan_int_literal)
  have nn: "hd s \<noteq> CHR ''n''"
    using hs by (auto simp: is_digit_def)
  obtain c cs where cs: "s = c # cs" using ne by (cases s) auto
  have c: "c \<noteq> CHR ''n''" "c = CHR ''-'' \<or> is_digit c" using nn hs cs by simp_all
  have "Decode (ws @ s) = Inr v"
    using Decode_front [of "ws @ s" c cs] dw cs c sc assms(6) assms(7)
    by auto
  then show ?thesis by (simp add: s_def)
qed

subsection \<open>Every code has a body\<close>

text \<open>
  The decimal text of a code, as a client would write it, and that the decoder
  reads it back: every \<open>int\<close> is the value of a well-formed JSON integer body.
\<close>

definition digit_char :: "nat \<Rightarrow> char" where
  "digit_char d = char_of (48 + d)"

fun decimal_nat :: "nat \<Rightarrow> string" where
  "decimal_nat n =
     (if n < 10 then [digit_char n] else decimal_nat (n div 10) @ [digit_char (n mod 10)])"

definition decimal :: "int64 \<Rightarrow> string" where
  "decimal v =
     (if sint v < 0 then CHR ''-'' # decimal_nat (nat (- sint v)) else decimal_nat (nat (sint v)))"

declare decimal_nat.simps [simp del]

lemma of_char_digit_char: "d < 10 \<Longrightarrow> of_char (digit_char d) = 48 + d"
  by (simp add: digit_char_def)

lemma is_digit_digit_char: "d < 10 \<Longrightarrow> is_digit (digit_char d)"
  by (simp add: is_digit_def of_char_digit_char)

lemma digit_val_digit_char: "d < 10 \<Longrightarrow> digit_val (digit_char d) = d"
  by (simp add: digit_val_def of_char_digit_char)

lemma decimal_nat_0: "decimal_nat 0 = ''0''"
  by (simp add: decimal_nat.simps [of 0] digit_char_def char_of_def bit_Suc_0_iff)

lemma decimal_nat_nonempty: "decimal_nat n \<noteq> []"
  by (subst decimal_nat.simps) simp

lemma decimal_nat_digits: "\<forall>c \<in> set (decimal_nat n). is_digit c"
proof (induction n rule: decimal_nat.induct)
  case (1 n)
  show ?case
  proof (cases "n < 10")
    case True
    then show ?thesis by (subst decimal_nat.simps) (simp add: is_digit_digit_char)
  next
    case False
    then show ?thesis
      using "1.IH" by (subst decimal_nat.simps) (simp add: is_digit_digit_char)
  qed
qed

lemma decimal_nat_no_leading_zero: "0 < n \<Longrightarrow> hd (decimal_nat n) \<noteq> CHR ''0''"
proof (induction n rule: decimal_nat.induct)
  case (1 n)
  show ?case
  proof (cases "n < 10")
    case True
    have "of_char (digit_char n) \<noteq> (48 :: nat)"
      using True "1.prems" by (simp add: of_char_digit_char)
    then have "digit_char n \<noteq> CHR ''0''" by auto
    then show ?thesis using True by (subst decimal_nat.simps) simp
  next
    case False
    then have "0 < n div 10" by simp
    then have "hd (decimal_nat (n div 10)) \<noteq> CHR ''0''" using "1.IH" False by simp
    then show ?thesis
      using False decimal_nat_nonempty [of "n div 10"]
      by (subst decimal_nat.simps) simp
  qed
qed

lemma ParseUint_loop_append:
  "ParseUint_loop (xs @ ys) m =
     (case ParseUint_loop xs m of Inl e \<Rightarrow> Inl e | Inr k \<Rightarrow> ParseUint_loop ys k)"
  by (induction xs arbitrary: m) simp_all

lemma ParseUint_loop_decimal:
  "n \<le> 2 ^ 64 - 1 \<Longrightarrow> ParseUint_loop (decimal_nat n) 0 = Inr n"
proof (induction n rule: decimal_nat.induct)
  case (1 n)
  show ?case
  proof (cases "n < 10")
    case True
    then show ?thesis
      by (subst decimal_nat.simps) (simp add: is_digit_digit_char digit_val_digit_char)
  next
    case False
    have q: "n div 10 \<le> 2 ^ 64 - 1" using "1.prems" by simp
    have ih: "ParseUint_loop (decimal_nat (n div 10)) 0 = Inr (n div 10)"
      using "1.IH" False q by simp
    have c: "\<not> n div 10 \<ge> (2 ^ 64 - 1) div 10 + 1" using "1.prems" by simp
    have v: "n div 10 * 10 + n mod 10 = n" by simp
    have m: "n mod 10 < 10" by simp
    have "ParseUint_loop [digit_char (n mod 10)] (n div 10) = Inr n"
      using c v "1.prems" m
      by (simp add: is_digit_digit_char digit_val_digit_char)
    then show ?thesis
      using False by (subst decimal_nat.simps) (simp add: ParseUint_loop_append ih)
  qed
qed

lemma ParseInt_decimal: "ParseInt (decimal v) = Inr v"
proof (cases "sint v < 0")
  case True
  let ?n = "nat (- sint v)"
  have b: "?n \<le> 2 ^ 63" using sint_ge [of v] True by simp
  then have u: "ParseUint (decimal_nat ?n) = Inr ?n"
    using ParseUint_loop_decimal [of ?n] by (simp add: ParseUint_def decimal_nat_nonempty)
  have "- (of_nat ?n :: int64) = v"
  proof -
    have "(of_nat ?n :: int64) = word_of_int (- sint v)" using True by simp
    then show ?thesis by simp
  qed
  then show ?thesis
    using True u b by (simp add: ParseInt_def decimal_def)
next
  case False
  let ?n = "nat (sint v)"
  have b: "?n < 2 ^ 63" using sint_less [of v] False by simp
  then have u: "ParseUint (decimal_nat ?n) = Inr ?n"
    using ParseUint_loop_decimal [of ?n] by (simp add: ParseUint_def decimal_nat_nonempty)
  have d: "is_digit (hd (decimal_nat ?n))"
    using decimal_nat_digits [of ?n] decimal_nat_nonempty [of ?n] by simp
  then have h: "hd (decimal_nat ?n) \<noteq> CHR ''-''" "hd (decimal_nat ?n) \<noteq> CHR ''+''"
    by (auto simp: is_digit_def)
  have "(of_nat ?n :: int64) = v" using False by simp
  then show ?thesis
    using False u b h decimal_nat_nonempty [of ?n] by (simp add: ParseInt_def decimal_def)
qed

lemma Decode_decimal: "Decode (decimal v) = Inr v"
proof -
  let ?sign = "if sint v < 0 then ''-'' else []"
  let ?n = "if sint v < 0 then nat (- sint v) else nat (sint v)"
  have e: "decimal v = [] @ ?sign @ decimal_nat ?n @ []"
    by (simp add: decimal_def)
  have z: "hd (decimal_nat ?n) = CHR ''0'' \<longrightarrow> decimal_nat ?n = ''0''"
  proof
    assume "hd (decimal_nat ?n) = CHR ''0''"
    then have "\<not> 0 < ?n" using decimal_nat_no_leading_zero [of ?n] by blast
    then have "?n = 0" by simp
    then show "decimal_nat ?n = ''0''"
      by (simp only: decimal_nat_0)
  qed
  have p: "ParseInt (?sign @ decimal_nat ?n) = Inr v"
    using ParseInt_decimal [of v] by (cases "sint v < 0") (simp_all add: decimal_def)
  show ?thesis
    unfolding e
    by (rule Decode_integer_front) (use z p decimal_nat_nonempty decimal_nat_digits in auto)
qed

subsection \<open>Write, then read\<close>

text \<open>
  C3, as stated, fails. The claim has a read return the written code as the
  response status for every integer code. The handler stores any code
  unchecked and passes it to \<open>WriteHeader\<close>, which panics for a code outside
  100..999: after a write of 1000, or of 0, the read sends no status at all.
\<close>

theorem health_read_invalid_code_counterexample:
  "Decode ''1000'' = Inr 1000
   \<and> healthHandler informational_1xx \<lparr>Method = ''POST'', Body = ''1000''\<rparr> currentHealthState
       = Inr (\<lparr>wroteHeader = True, status = 200, informational = []\<rparr>, \<lparr>StatusCode = 1000\<rparr>)
   \<and> healthHandler informational_1xx \<lparr>Method = ''GET'', Body = []\<rparr>
         (serve_health informational_1xx [\<lparr>Method = ''POST'', Body = ''1000''\<rparr>] currentHealthState)
       = Inl (InvalidWriteHeaderCode 1000)
   \<and> healthHandler informational_1xx \<lparr>Method = ''GET'', Body = []\<rparr>
         (serve_health informational_1xx [\<lparr>Method = ''POST'', Body = ''0''\<rparr>] currentHealthState)
       = Inl (InvalidWriteHeaderCode 0)"
proof -
  note ev = Decode_def scan_int_def isSpace_def ParseInt_def ParseUint_def is_digit_def
    digit_val_def
  have d: "Decode ''1000'' = Inr 1000" by (simp add: ev)
  have z: "Decode ''0'' = Inr 0" by (simp add: ev)
  have n: "\<forall>r \<in> set ([] :: Request list). \<not> is_writer r" by simp
  have g: "Method \<lparr>Method = ''GET'', Body = []\<rparr> \<noteq> ''POST''" by simp
  have 1: "healthHandler informational_1xx \<lparr>Method = ''POST'', Body = ''1000''\<rparr> currentHealthState
       = Inr (\<lparr>wroteHeader = True, status = 200, informational = []\<rparr>, \<lparr>StatusCode = 1000\<rparr>)"
    using d by (rule healthHandler_post_ok)
  have 2: "healthHandler informational_1xx \<lparr>Method = ''GET'', Body = []\<rparr>
         (serve_health informational_1xx [\<lparr>Method = ''POST'', Body = ''1000''\<rparr>] currentHealthState)
       = Inl (InvalidWriteHeaderCode 1000)"
    unfolding serve_health_write [OF d n] healthHandler_read [OF g]
    by (simp add: word_sless_alt)
  have 3: "healthHandler informational_1xx \<lparr>Method = ''GET'', Body = []\<rparr>
         (serve_health informational_1xx [\<lparr>Method = ''POST'', Body = ''0''\<rparr>] currentHealthState)
       = Inl (InvalidWriteHeaderCode 0)"
    unfolding serve_health_write [OF z n] healthHandler_read [OF g]
    by (simp add: word_sless_alt)
  from d 1 2 3 show ?thesis by (intro conjI)
qed

text \<open>
  C3, amended. Every code a Go \<open>int\<close> can hold is stored unvalidated by a
  \<open>POST\<close> whose body decodes to it. For every code from 200 to 999, inside the
  conventional range of HTTP status codes or not (503 or 999), and for a 1xx code
  that the library does not treat as informational, a read after that write and
  after any requests that do not write the state returns exactly that code as
  the response status. For a 1xx code that the library treats as informational
  the read sends the code as an informational response and then the status 200.
  For a code below 100 or above 999 the read panics in \<open>WriteHeader\<close> and sends
  no status. Every code is the value of a body, its decimal text.
\<close>

theorem health_write_then_read:
  assumes "Decode body = Inr code"
    and "\<forall>r \<in> set between. \<not> is_writer r"
    and "Method rd \<noteq> ''POST''"
  shows "healthHandler info \<lparr>Method = ''POST'', Body = body\<rparr> st
           = Inr (\<lparr>wroteHeader = True, status = 200, informational = []\<rparr>, \<lparr>StatusCode = code\<rparr>)
         \<and> serve_health info (\<lparr>Method = ''POST'', Body = body\<rparr> # between) st = \<lparr>StatusCode = code\<rparr>
         \<and> ((200 \<le>s code \<and> code \<le>s 999) \<or> (100 \<le>s code \<and> code \<le>s 199 \<and> \<not> info code) \<longrightarrow>
               healthHandler info rd
                 (serve_health info (\<lparr>Method = ''POST'', Body = body\<rparr> # between) st)
               = Inr (\<lparr>wroteHeader = True, status = code, informational = []\<rparr>,
                      \<lparr>StatusCode = code\<rparr>))
         \<and> (100 \<le>s code \<and> code \<le>s 199 \<and> info code \<longrightarrow>
               healthHandler info rd
                 (serve_health info (\<lparr>Method = ''POST'', Body = body\<rparr> # between) st)
               = Inr (\<lparr>wroteHeader = True, status = 200, informational = [code]\<rparr>,
                      \<lparr>StatusCode = code\<rparr>))
         \<and> (code <s 100 \<or> 999 <s code \<longrightarrow>
               healthHandler info rd
                 (serve_health info (\<lparr>Method = ''POST'', Body = body\<rparr> # between) st)
               = Inl (InvalidWriteHeaderCode code))
         \<and> Decode (decimal code) = Inr code"
proof -
  note w = serve_health_write [OF assms(1) assms(2), of info st]
  note r = healthHandler_read [OF assms(3), of info code]
  have 1: "healthHandler info \<lparr>Method = ''POST'', Body = body\<rparr> st
           = Inr (\<lparr>wroteHeader = True, status = 200, informational = []\<rparr>, \<lparr>StatusCode = code\<rparr>)"
    using assms(1) by (rule healthHandler_post_ok)
  have 3: "(200 \<le>s code \<and> code \<le>s 999) \<or> (100 \<le>s code \<and> code \<le>s 199 \<and> \<not> info code) \<longrightarrow>
               healthHandler info rd
                 (serve_health info (\<lparr>Method = ''POST'', Body = body\<rparr> # between) st)
               = Inr (\<lparr>wroteHeader = True, status = code, informational = []\<rparr>,
                      \<lparr>StatusCode = code\<rparr>)"
    unfolding w r by (auto simp: word_sless_alt word_sle_eq)
  have 4: "100 \<le>s code \<and> code \<le>s 199 \<and> info code \<longrightarrow>
               healthHandler info rd
                 (serve_health info (\<lparr>Method = ''POST'', Body = body\<rparr> # between) st)
               = Inr (\<lparr>wroteHeader = True, status = 200, informational = [code]\<rparr>,
                      \<lparr>StatusCode = code\<rparr>)"
    unfolding w r by (auto simp: word_sless_alt word_sle_eq)
  have 5: "code <s 100 \<or> 999 <s code \<longrightarrow>
               healthHandler info rd
                 (serve_health info (\<lparr>Method = ''POST'', Body = body\<rparr> # between) st)
               = Inl (InvalidWriteHeaderCode code)"
    unfolding w r by simp
  have 6: "Decode (decimal code) = Inr code" by (rule Decode_decimal)
  from 1 w 3 4 5 6 show ?thesis by (intro conjI)
qed

theorem health_write_then_read_witness:
  "Decode ''999'' = Inr 999
   \<and> \<not> is_writer \<lparr>Method = ''POST'', Body = ''x''\<rparr>
   \<and> \<not> is_writer \<lparr>Method = ''GET'', Body = []\<rparr>
   \<and> Method \<lparr>Method = ''GET'', Body = []\<rparr> \<noteq> ''POST''
   \<and> healthHandler informational_1xx \<lparr>Method = ''GET'', Body = []\<rparr>
         (serve_health informational_1xx
            [\<lparr>Method = ''POST'', Body = ''999''\<rparr>, \<lparr>Method = ''POST'', Body = ''x''\<rparr>,
             \<lparr>Method = ''GET'', Body = []\<rparr>]
            currentHealthState)
       = Inr (\<lparr>wroteHeader = True, status = 999, informational = []\<rparr>, \<lparr>StatusCode = 999\<rparr>)
   \<and> Decode ''150'' = Inr 150
   \<and> healthHandler informational_1xx \<lparr>Method = ''GET'', Body = []\<rparr>
         (serve_health informational_1xx [\<lparr>Method = ''POST'', Body = ''150''\<rparr>] currentHealthState)
       = Inr (\<lparr>wroteHeader = True, status = 200, informational = [150]\<rparr>, \<lparr>StatusCode = 150\<rparr>)
   \<and> Decode ''-1'' = Inr (- 1)
   \<and> healthHandler informational_1xx \<lparr>Method = ''GET'', Body = []\<rparr>
         (serve_health informational_1xx [\<lparr>Method = ''POST'', Body = ''-1''\<rparr>] currentHealthState)
       = Inl (InvalidWriteHeaderCode (- 1))"
proof -
  note ev = Decode_def scan_int_def isSpace_def ParseInt_def ParseUint_def is_digit_def
    digit_val_def
  note c1 = conjunct1 and c2 = conjunct2
  let ?get = "\<lparr>Method = ''GET'', Body = []\<rparr>"
  let ?bad = "\<lparr>Method = ''POST'', Body = ''x''\<rparr>"
  have d9: "Decode ''999'' = Inr 999" by (simp add: ev)
  have d1: "Decode ''150'' = Inr 150" by (simp add: ev)
  have dm: "Decode ''-1'' = Inr (- 1)" by (simp add: ev)
  have nb: "\<not> is_writer ?bad" by (simp add: is_writer_def ev)
  have ng: "\<not> is_writer ?get" by (simp add: is_writer_def)
  have b: "\<forall>r \<in> set [?bad, ?get]. \<not> is_writer r" using nb ng by simp
  have e: "\<forall>r \<in> set ([] :: Request list). \<not> is_writer r" by simp
  have g: "Method ?get \<noteq> ''POST''" by simp
  have h9: "(200 \<le>s (999 :: int64) \<and> (999 :: int64) \<le>s 999)
            \<or> (100 \<le>s (999 :: int64) \<and> (999 :: int64) \<le>s 199 \<and> \<not> informational_1xx 999)"
    by (simp add: word_sle_eq)
  have h1: "100 \<le>s (150 :: int64) \<and> (150 :: int64) \<le>s 199 \<and> informational_1xx 150"
    by (simp add: word_sle_eq informational_1xx_def)
  have hm: "(- 1 :: int64) <s 100 \<or> 999 <s (- 1 :: int64)"
    by (simp add: word_sless_alt)
  have 1: "healthHandler informational_1xx ?get
         (serve_health informational_1xx
            [\<lparr>Method = ''POST'', Body = ''999''\<rparr>, ?bad, ?get] currentHealthState)
       = Inr (\<lparr>wroteHeader = True, status = 999, informational = []\<rparr>, \<lparr>StatusCode = 999\<rparr>)"
    using h9
    by (rule health_write_then_read [OF d9 b g, THEN c2, THEN c2, THEN c1, THEN mp])
  have 2: "healthHandler informational_1xx ?get
         (serve_health informational_1xx [\<lparr>Method = ''POST'', Body = ''150''\<rparr>] currentHealthState)
       = Inr (\<lparr>wroteHeader = True, status = 200, informational = [150]\<rparr>, \<lparr>StatusCode = 150\<rparr>)"
    using h1
    by (rule health_write_then_read [OF d1 e g, THEN c2, THEN c2, THEN c2, THEN c1, THEN mp])
  have 3: "healthHandler informational_1xx ?get
         (serve_health informational_1xx [\<lparr>Method = ''POST'', Body = ''-1''\<rparr>] currentHealthState)
       = Inl (InvalidWriteHeaderCode (- 1))"
    using hm
    by (rule health_write_then_read
          [OF dm e g, THEN c2, THEN c2, THEN c2, THEN c2, THEN c1, THEN mp])
  from d9 nb ng g 1 d1 2 dm 3 show ?thesis by (intro conjI)
qed

subsection \<open>A body that does not decode\<close>

text \<open>
  C8, as stated, fails. The claim answers 400 and leaves the state unchanged for
  every body that does not decode as a JSON integer. The body \<open>null\<close> is no JSON
  integer, yet the decoder returns no error for it and leaves \<open>statusCode\<close> at
  zero: the handler answers 200 and overwrites the stored code with 0. A body
  with other text after an integer, \<open>503 junk\<close>, is accepted as well and
  stores 503.
\<close>

theorem health_post_null_counterexample:
  "healthHandler informational_1xx \<lparr>Method = ''POST'', Body = ''null''\<rparr> currentHealthState
     = Inr (\<lparr>wroteHeader = True, status = 200, informational = []\<rparr>, \<lparr>StatusCode = 0\<rparr>)
   \<and> StatusCode currentHealthState = 200
   \<and> healthHandler informational_1xx \<lparr>Method = ''POST'', Body = ''503 junk''\<rparr> currentHealthState
     = Inr (\<lparr>wroteHeader = True, status = 200, informational = []\<rparr>, \<lparr>StatusCode = 503\<rparr>)"
proof -
  note ev = Decode_def scan_int_def isSpace_def ParseInt_def ParseUint_def is_digit_def
    digit_val_def
  have "Decode ''null'' = Inr 0" by (simp add: ev)
  then have 1: "healthHandler informational_1xx \<lparr>Method = ''POST'', Body = ''null''\<rparr>
        currentHealthState
     = Inr (\<lparr>wroteHeader = True, status = 200, informational = []\<rparr>, \<lparr>StatusCode = 0\<rparr>)"
    by (rule healthHandler_post_ok)
  have "Decode ''503 junk'' = Inr 503" by (simp add: ev)
  then have 2: "healthHandler informational_1xx \<lparr>Method = ''POST'', Body = ''503 junk''\<rparr>
        currentHealthState
     = Inr (\<lparr>wroteHeader = True, status = 200, informational = []\<rparr>, \<lparr>StatusCode = 503\<rparr>)"
    by (rule healthHandler_post_ok)
  have 3: "StatusCode currentHealthState = 200" by (simp add: currentHealthState_def)
  from 1 3 2 show ?thesis by (intro conjI)
qed

text \<open>
  C8, amended. A write either succeeds at once or fails before it reaches the
  state: for every request body on which the decoder returns an error the
  \<open>POST\<close> path answers 400 and leaves the stored status code unchanged, and for
  every other body it answers 200 and stores the decoded code. The decoder
  returns an error for every body that, after leading white space, is empty or
  starts with a byte other than a digit, a minus or \<open>n\<close>. It returns no error
  for a body whose front, after white space, is \<open>null\<close>, which stores 0, or an
  integer literal that fits 64 bits and is not continued as a number, which
  stores its value, whatever follows the value.
\<close>

theorem health_decode_error_unchanged:
  "(\<forall>e. Decode body = Inl e \<longrightarrow>
       healthHandler info \<lparr>Method = ''POST'', Body = body\<rparr> st
         = Inr (\<lparr>wroteHeader = True, status = 400, informational = []\<rparr>, st))
   \<and> (\<forall>v. Decode body = Inr v \<longrightarrow>
       healthHandler info \<lparr>Method = ''POST'', Body = body\<rparr> st
         = Inr (\<lparr>wroteHeader = True, status = 200, informational = []\<rparr>, \<lparr>StatusCode = v\<rparr>))
   \<and> (dropWhile isSpace body = []
        \<or> (hd (dropWhile isSpace body) \<noteq> CHR ''n''
            \<and> hd (dropWhile isSpace body) \<noteq> CHR ''-''
            \<and> \<not> is_digit (hd (dropWhile isSpace body)))
       \<longrightarrow> Decode body = Inl DecodeError)
   \<and> (\<forall>ws rest. (\<forall>c \<in> set ws. isSpace c) \<longrightarrow> Decode (ws @ ''null'' @ rest) = Inr 0)
   \<and> (\<forall>ws sign ds rest v.
         (\<forall>c \<in> set ws. isSpace c)
         \<and> (sign = [] \<or> sign = ''-'')
         \<and> ds \<noteq> [] \<and> (\<forall>c \<in> set ds. is_digit c) \<and> (hd ds = CHR ''0'' \<longrightarrow> ds = ''0'')
         \<and> (rest = [] \<or> (\<not> is_digit (hd rest) \<and> hd rest \<noteq> CHR ''.''
                            \<and> hd rest \<noteq> CHR ''e'' \<and> hd rest \<noteq> CHR ''E''))
         \<and> ParseInt (sign @ ds) = Inr v
         \<longrightarrow> Decode (ws @ sign @ ds @ rest) = Inr v)"
proof -
  have 1: "\<forall>e. Decode body = Inl e \<longrightarrow>
       healthHandler info \<lparr>Method = ''POST'', Body = body\<rparr> st
         = Inr (\<lparr>wroteHeader = True, status = 400, informational = []\<rparr>, st)"
    by (simp add: healthHandler_post_error)
  have 2: "\<forall>v. Decode body = Inr v \<longrightarrow>
       healthHandler info \<lparr>Method = ''POST'', Body = body\<rparr> st
         = Inr (\<lparr>wroteHeader = True, status = 200, informational = []\<rparr>, \<lparr>StatusCode = v\<rparr>)"
    by (simp add: healthHandler_post_ok)
  have 3: "dropWhile isSpace body = []
        \<or> (hd (dropWhile isSpace body) \<noteq> CHR ''n''
            \<and> hd (dropWhile isSpace body) \<noteq> CHR ''-''
            \<and> \<not> is_digit (hd (dropWhile isSpace body)))
       \<longrightarrow> Decode body = Inl DecodeError"
    using Decode_other_front [of body] by blast
  have 4: "\<forall>ws rest. (\<forall>c \<in> set ws. isSpace c) \<longrightarrow> Decode (ws @ ''null'' @ rest) = Inr 0"
    using Decode_null by blast
  have 5: "\<forall>ws sign ds rest v.
         (\<forall>c \<in> set ws. isSpace c)
         \<and> (sign = [] \<or> sign = ''-'')
         \<and> ds \<noteq> [] \<and> (\<forall>c \<in> set ds. is_digit c) \<and> (hd ds = CHR ''0'' \<longrightarrow> ds = ''0'')
         \<and> (rest = [] \<or> (\<not> is_digit (hd rest) \<and> hd rest \<noteq> CHR ''.''
                            \<and> hd rest \<noteq> CHR ''e'' \<and> hd rest \<noteq> CHR ''E''))
         \<and> ParseInt (sign @ ds) = Inr v
         \<longrightarrow> Decode (ws @ sign @ ds @ rest) = Inr v"
    using Decode_integer_front by blast
  from 1 2 3 4 5 show ?thesis by (intro conjI)
qed

theorem health_decode_error_unchanged_witness:
  "Decode ''abc'' = Inl DecodeError
   \<and> healthHandler informational_1xx \<lparr>Method = ''POST'', Body = ''abc''\<rparr> currentHealthState
       = Inr (\<lparr>wroteHeader = True, status = 400, informational = []\<rparr>, currentHealthState)
   \<and> Decode ''1.5'' = Inl DecodeError
   \<and> healthHandler informational_1xx \<lparr>Method = ''POST'', Body = ''1.5''\<rparr> currentHealthState
       = Inr (\<lparr>wroteHeader = True, status = 400, informational = []\<rparr>, currentHealthState)
   \<and> Decode ''503'' = Inr 503
   \<and> healthHandler informational_1xx \<lparr>Method = ''POST'', Body = ''503''\<rparr> currentHealthState
       = Inr (\<lparr>wroteHeader = True, status = 200, informational = []\<rparr>, \<lparr>StatusCode = 503\<rparr>)
   \<and> Decode ('' '' @ ''null'' @ ''x'') = Inr 0
   \<and> ParseInt (''-'' @ ''12'') = Inr (- 12)
   \<and> Decode ('' '' @ ''-'' @ ''12'' @ '' junk'') = Inr (- 12)"
proof -
  note ev = Decode_def scan_int_def isSpace_def ParseInt_def ParseUint_def is_digit_def
    digit_val_def
  note c1 = conjunct1 and c2 = conjunct2
  note T = health_decode_error_unchanged
  have f: "dropWhile isSpace ''abc'' = []
        \<or> (hd (dropWhile isSpace ''abc'') \<noteq> CHR ''n''
            \<and> hd (dropWhile isSpace ''abc'') \<noteq> CHR ''-''
            \<and> \<not> is_digit (hd (dropWhile isSpace ''abc'')))"
    by (simp add: isSpace_def is_digit_def)
  have a: "Decode ''abc'' = Inl DecodeError"
    using f by (rule T [THEN c2, THEN c2, THEN c1, THEN mp])
  have 1: "healthHandler informational_1xx \<lparr>Method = ''POST'', Body = ''abc''\<rparr> currentHealthState
       = Inr (\<lparr>wroteHeader = True, status = 400, informational = []\<rparr>, currentHealthState)"
    using a by (rule T [THEN c1, rule_format])
  have b: "Decode ''1.5'' = Inl DecodeError" by (simp add: ev)
  have 2: "healthHandler informational_1xx \<lparr>Method = ''POST'', Body = ''1.5''\<rparr> currentHealthState
       = Inr (\<lparr>wroteHeader = True, status = 400, informational = []\<rparr>, currentHealthState)"
    using b by (rule T [THEN c1, rule_format])
  have c: "Decode ''503'' = Inr 503" by (simp add: ev)
  have 3: "healthHandler informational_1xx \<lparr>Method = ''POST'', Body = ''503''\<rparr> currentHealthState
       = Inr (\<lparr>wroteHeader = True, status = 200, informational = []\<rparr>, \<lparr>StatusCode = 503\<rparr>)"
    using c by (rule T [THEN c2, THEN c1, rule_format])
  have w: "\<forall>c \<in> set '' ''. isSpace c" by (simp add: isSpace_def)
  have 4: "Decode ('' '' @ ''null'' @ ''x'') = Inr 0"
    using w by (rule T [THEN c2, THEN c2, THEN c2, THEN c1, THEN spec, THEN spec, THEN mp])
  have p: "ParseInt (''-'' @ ''12'') = Inr (- 12)"
    by (simp add: ParseInt_def ParseUint_def is_digit_def digit_val_def)
  have h: "(\<forall>c \<in> set '' ''. isSpace c)
         \<and> (''-'' = [] \<or> ''-'' = ''-'')
         \<and> ''12'' \<noteq> [] \<and> (\<forall>c \<in> set ''12''. is_digit c) \<and> (hd ''12'' = CHR ''0'' \<longrightarrow> ''12'' = ''0'')
         \<and> ('' junk'' = [] \<or> (\<not> is_digit (hd '' junk'') \<and> hd '' junk'' \<noteq> CHR ''.''
                            \<and> hd '' junk'' \<noteq> CHR ''e'' \<and> hd '' junk'' \<noteq> CHR ''E''))
         \<and> ParseInt (''-'' @ ''12'') = Inr (- 12)"
    using p by (simp add: isSpace_def is_digit_def)
  have 5: "Decode ('' '' @ ''-'' @ ''12'' @ '' junk'') = Inr (- 12)"
    using h
    by (rule T [THEN c2, THEN c2, THEN c2, THEN c2, THEN spec, THEN spec, THEN spec, THEN spec,
                THEN spec, THEN mp])
  from a 1 b 2 c 3 4 p 5 show ?thesis by (intro conjI)
qed

section \<open>Request metrics (buffer_pool.go, metricsMiddleware)\<close>

text \<open>
  Modelled from the spec: the package variables \<open>totalRequestCount\<close>,
  \<open>concurrentRequestCount\<close> (of type \<open>expvarInt\<close>) and
  \<open>maxConcurrentRequestCount\<close> (of type \<open>expvarMaxInt\<close>) are declared in the
  sources, their types are not. The specification calls them atomic counters
  for total requests, current concurrency and peak concurrency, zero at process
  start; they are integers here. \<open>updates\<close> is not a variable of the program:
  it logs the arguments \<open>Update\<close> has been called with, latest first.
\<close>

record metrics =
  totalRequestCount :: int
  concurrentRequestCount :: int
  maxConcurrentRequestCount :: int
  updates :: "int list"

text \<open>
  Modelled from the spec: \<open>expvarInt.Add\<close> is missing from the sources. The
  specification has the start of a request atomically increment a counter and
  return its new value, and the end atomically decrement it: \<open>Add delta\<close> on a
  counter holding \<open>v\<close> returns the new value and stores it, in one step.
\<close>

definition expvarInt_Add :: "int \<Rightarrow> int \<Rightarrow> int \<times> int" where
  "expvarInt_Add delta v = (v + delta, v + delta)"

text \<open>
  Modelled from the spec: \<open>expvarMaxInt.Update\<close> is missing from the sources. The
  specification: it atomically raises the stored maximum to the candidate if and
  only if the candidate exceeds the current stored maximum.
\<close>

definition expvarMaxInt_Update :: "int \<Rightarrow> int \<Rightarrow> int" where
  "expvarMaxInt_Update candidate m = (if m < candidate then candidate else m)"

text \<open>
  The statements of the middleware, each one atomic step on the counters:
  the three of \<open>onHandleRequestStart\<close>, in order
  \<open>count := concurrentRequestCount.Add(1)\<close>, \<open>totalRequestCount.Add(1)\<close> and
  \<open>maxConcurrentRequestCount.Update(count)\<close>, and the one of
  \<open>onHandleRequestFinish\<close>, \<open>concurrentRequestCount.Add(-1)\<close>.
\<close>

definition start_count :: "metrics \<Rightarrow> int \<times> metrics" where
  "start_count m =
     (case expvarInt_Add 1 (concurrentRequestCount m) of
        (count, v) \<Rightarrow> (count, m\<lparr>concurrentRequestCount := v\<rparr>))"

definition start_total :: "metrics \<Rightarrow> metrics" where
  "start_total m = m\<lparr>totalRequestCount := snd (expvarInt_Add 1 (totalRequestCount m))\<rparr>"

definition start_update :: "int \<Rightarrow> metrics \<Rightarrow> metrics" where
  "start_update count m =
     m\<lparr>maxConcurrentRequestCount := expvarMaxInt_Update count (maxConcurrentRequestCount m),
       updates := count # updates m\<rparr>"

definition onHandleRequestFinish :: "metrics \<Rightarrow> metrics" where
  "onHandleRequestFinish m =
     m\<lparr>concurrentRequestCount := snd (expvarInt_Add (- 1) (concurrentRequestCount m))\<rparr>"

text \<open>
  A caller runs \<open>ServeHTTP\<close> again and again: \<open>onHandleRequestStart\<close>, then
  the wrapped handler, then the deferred \<open>onHandleRequestFinish\<close>, which runs
  whether the handler returns or panics. Its control state says which statement
  is next and keeps the local \<open>count\<close>: \<open>Idle\<close> before the first statement of
  \<open>onHandleRequestStart\<close>, \<open>Started count\<close> and \<open>Counted count\<close> before its
  second and third, \<open>Handling\<close> while the wrapped handler runs. \<open>starts\<close>
  and \<open>finishes\<close> are not variables of the program: they count the calls of
  \<open>onHandleRequestStart\<close> and \<open>onHandleRequestFinish\<close> this caller has
  completed.
\<close>

datatype pc = Idle | Started int | Counted int | Handling

record thread =
  pc :: pc
  starts :: nat
  finishes :: nat

definition thread_step :: "thread \<Rightarrow> metrics \<Rightarrow> thread \<times> metrics" where
  "thread_step t m =
     (case pc t of
        Idle \<Rightarrow> (case start_count m of (count, m') \<Rightarrow> (t\<lparr>pc := Started count\<rparr>, m'))
      | Started count \<Rightarrow> (t\<lparr>pc := Counted count\<rparr>, start_total m)
      | Counted count \<Rightarrow> (t\<lparr>pc := Handling, starts := Suc (starts t)\<rparr>, start_update count m)
      | Handling \<Rightarrow> (t\<lparr>pc := Idle, finishes := Suc (finishes t)\<rparr>, onHandleRequestFinish m))"

text \<open>
  \<open>onHandleRequestStart\<close> run without interruption, and the three steps of a
  caller that make it up.
\<close>

definition onHandleRequestStart :: "metrics \<Rightarrow> metrics" where
  "onHandleRequestStart m =
     (case start_count m of (count, m1) \<Rightarrow> start_update count (start_total m1))"

lemma onHandleRequestStart_steps:
  assumes "pc t = Idle"
    and "thread_step t m = (t1, m1)"
    and "thread_step t1 m1 = (t2, m2)"
    and "thread_step t2 m2 = (t3, m3)"
  shows "m3 = onHandleRequestStart m \<and> pc t3 = Handling \<and> starts t3 = Suc (starts t)"
  using assms
  by (auto simp: thread_step_def onHandleRequestStart_def start_count_def expvarInt_Add_def)

text \<open>
  The system is the counters and the callers. In a step one caller runs its next
  statement; an interleaving is a list of caller indices, and \<open>run\<close> performs
  it. Initially the counters are zero and all \<open>M\<close> callers idle.
\<close>

type_synonym system = "metrics \<times> thread list"

definition init :: "nat \<Rightarrow> system" where
  "init M =
     (\<lparr>totalRequestCount = 0, concurrentRequestCount = 0, maxConcurrentRequestCount = 0,
       updates = []\<rparr>,
      replicate M \<lparr>pc = Idle, starts = 0, finishes = 0\<rparr>)"

definition step :: "nat \<Rightarrow> system \<Rightarrow> system" where
  "step i s =
     (case s of
        (m, ts) \<Rightarrow>
          if i < length ts
          then (case thread_step (ts ! i) m of (t', m') \<Rightarrow> (m', ts[i := t']))
          else (m, ts))"

fun run :: "nat list \<Rightarrow> system \<Rightarrow> system" where
  "run [] s = s"
| "run (i # sched) s = run sched (step i s)"

text \<open>
  The historical peak of the in-flight counter: the greatest value it has had in
  any state the interleaving has gone through, the first and the last included.
\<close>

fun peak_along :: "nat list \<Rightarrow> system \<Rightarrow> int" where
  "peak_along [] s = concurrentRequestCount (fst s)"
| "peak_along (i # sched) s =
     max (concurrentRequestCount (fst s)) (peak_along sched (step i s))"

text \<open>
  A caller is inside \<open>onHandleRequestStart\<close> when it has run the first
  statement and not yet the last. The calls completed by all callers, and the
  calls of \<open>onHandleRequestStart\<close> that are in progress:
\<close>

definition in_start :: "thread \<Rightarrow> bool" where
  "in_start t \<longleftrightarrow> (case pc t of Started _ \<Rightarrow> True | Counted _ \<Rightarrow> True | _ \<Rightarrow> False)"

definition completed_starts :: "system \<Rightarrow> int" where
  "completed_starts s = sum_list (map (\<lambda>t. int (starts t)) (snd s))"

definition completed_finishes :: "system \<Rightarrow> int" where
  "completed_finishes s = sum_list (map (\<lambda>t. int (finishes t)) (snd s))"

definition starts_in_progress :: "system \<Rightarrow> int" where
  "starts_in_progress s = sum_list (map (\<lambda>t. if in_start t then 1 else 0) (snd s))"

subsection \<open>Invariants\<close>

text \<open>
  Per caller: what it contributes to the in-flight counter and to the total
  counter, that its completed calls match its control state, and the value it
  holds in \<open>count\<close> while inside \<open>onHandleRequestStart\<close>.
\<close>

definition busy :: "thread \<Rightarrow> int" where
  "busy t = int (starts t) + (if in_start t then 1 else 0) - int (finishes t)"

definition counted :: "thread \<Rightarrow> int" where
  "counted t = int (finishes t) + (case pc t of Counted _ \<Rightarrow> 1 | Handling \<Rightarrow> 1 | _ \<Rightarrow> 0)"

definition balanced :: "thread \<Rightarrow> bool" where
  "balanced t \<longleftrightarrow> starts t = finishes t + (if pc t = Handling then 1 else 0)"

definition pending :: "thread \<Rightarrow> int option" where
  "pending t = (case pc t of Started c \<Rightarrow> Some c | Counted c \<Rightarrow> Some c | _ \<Rightarrow> None)"

definition metrics_inv :: "system \<Rightarrow> bool" where
  "metrics_inv s \<longleftrightarrow>
     concurrentRequestCount (fst s) = sum_list (map busy (snd s))
     \<and> totalRequestCount (fst s) = sum_list (map counted (snd s))
     \<and> (\<forall>t \<in> set (snd s). balanced t)
     \<and> (\<forall>c \<in> set (updates (fst s)). c \<le> maxConcurrentRequestCount (fst s))"

lemma sum_list_map_update:
  fixes f :: "'a \<Rightarrow> int"
  shows "k < length xs \<Longrightarrow>
         sum_list (map f (xs[k := x])) = sum_list (map f xs) - f (xs ! k) + f x"
proof (induction xs arbitrary: k)
  case Nil
  then show ?case by simp
next
  case (Cons a xs)
  then show ?case by (cases k) auto
qed

lemma length_step [simp]: "length (snd (step i s)) = length (snd s)"
  by (cases s) (simp add: step_def split: prod.splits)

lemma length_run [simp]: "length (snd (run sched s)) = length (snd s)"
  by (induction sched arbitrary: s) simp_all

lemma thread_step_effect:
  assumes "thread_step t m = (t', m')" and "balanced t"
  shows "concurrentRequestCount m' = concurrentRequestCount m - busy t + busy t'"
    and "totalRequestCount m' = totalRequestCount m - counted t + counted t'"
    and "balanced t'"
    and "maxConcurrentRequestCount m \<le> maxConcurrentRequestCount m'"
    and "set (updates m') \<subseteq> set (updates m) \<union> {c. c \<le> maxConcurrentRequestCount m'}"
  using assms
  by (cases "pc t";
      auto simp: thread_step_def start_count_def start_total_def start_update_def
        onHandleRequestFinish_def expvarInt_Add_def expvarMaxInt_Update_def
        busy_def counted_def balanced_def in_start_def)+

lemma metrics_inv_step:
  assumes "metrics_inv s"
  shows "metrics_inv (step i s)"
proof -
  obtain m ts where s: "s = (m, ts)" by (cases s)
  show ?thesis
  proof (cases "i < length ts")
    case False
    then show ?thesis using assms by (simp add: s step_def)
  next
    case True
    obtain t' m' where ts: "thread_step (ts ! i) m = (t', m')"
      by (cases "thread_step (ts ! i) m")
    have st: "step i s = (m', ts[i := t'])"
      using True ts by (simp add: s step_def)
    have b: "balanced (ts ! i)" using assms True by (simp add: metrics_inv_def s)
    note e = thread_step_effect [OF ts b]
    have 1: "concurrentRequestCount m' = sum_list (map busy (ts[i := t']))"
      using assms e(1) by (simp add: metrics_inv_def s sum_list_map_update [OF True])
    have 2: "totalRequestCount m' = sum_list (map counted (ts[i := t']))"
      using assms e(2) by (simp add: metrics_inv_def s sum_list_map_update [OF True])
    have 3: "\<forall>t \<in> set (ts[i := t']). balanced t"
    proof
      fix t assume "t \<in> set (ts[i := t'])"
      then have "t = t' \<or> t \<in> set ts"
        using set_update_subset_insert [of ts i t'] by auto
      then show "balanced t" using e(3) assms by (auto simp: metrics_inv_def s)
    qed
    have 4: "\<forall>c \<in> set (updates m'). c \<le> maxConcurrentRequestCount m'"
    proof
      fix c assume "c \<in> set (updates m')"
      then have "c \<in> set (updates m) \<or> c \<le> maxConcurrentRequestCount m'"
        using e(5) by auto
      then show "c \<le> maxConcurrentRequestCount m'"
        using assms e(4) by (fastforce simp: metrics_inv_def s)
    qed
    from 1 2 3 4 show ?thesis by (simp add: metrics_inv_def st)
  qed
qed

lemma metrics_inv_init: "metrics_inv (init M)"
  by (induction M) (auto simp: metrics_inv_def init_def busy_def counted_def balanced_def in_start_def)

lemma metrics_inv_run: "metrics_inv s \<Longrightarrow> metrics_inv (run sched s)"
  by (induction sched arbitrary: s) (simp_all add: metrics_inv_step)

text \<open>
  The stored maximum against a peak \<open>p\<close>: nothing exceeds \<open>p\<close>, and \<open>p\<close> is
  either stored already or held by a caller that has not yet passed it on.
\<close>

definition peak_inv :: "system \<Rightarrow> int \<Rightarrow> bool" where
  "peak_inv s p \<longleftrightarrow>
     maxConcurrentRequestCount (fst s) \<le> p
     \<and> concurrentRequestCount (fst s) \<le> p
     \<and> (\<forall>j < length (snd s). \<forall>c. pending (snd s ! j) = Some c \<longrightarrow> c \<le> p)
     \<and> (p = maxConcurrentRequestCount (fst s)
          \<or> (\<exists>j < length (snd s). pending (snd s ! j) = Some p))"

lemma pending_update_bound:
  assumes "\<And>j c. j < length ts \<Longrightarrow> pending (ts ! j) = Some c \<Longrightarrow> c \<le> p"
    and "\<And>c. pending t' = Some c \<Longrightarrow> c \<le> q"
    and "p \<le> q"
  shows "\<forall>j < length ts. \<forall>c. pending (ts[i := t'] ! j) = Some c \<longrightarrow> c \<le> q"
proof (intro allI impI)
  fix j c
  assume j: "j < length ts" and c: "pending (ts[i := t'] ! j) = Some c"
  show "c \<le> q"
  proof (cases "j = i")
    case True
    then have "ts[i := t'] ! j = t'" using j by simp
    then show ?thesis using c assms(2) by simp
  next
    case False
    then have "ts[i := t'] ! j = ts ! j" by simp
    then have "c \<le> p" using c j assms(1) by simp
    then show ?thesis using assms(3) by simp
  qed
qed

lemma peak_inv_step:
  assumes "peak_inv s p"
  shows "peak_inv (step i s) (max p (concurrentRequestCount (fst (step i s))))"
proof -
  obtain m ts where s: "s = (m, ts)" by (cases s)
  from assms have
    a: "maxConcurrentRequestCount m \<le> p" and
    b: "concurrentRequestCount m \<le> p" and
    c: "\<And>j c. j < length ts \<Longrightarrow> pending (ts ! j) = Some c \<Longrightarrow> c \<le> p" and
    d: "p = maxConcurrentRequestCount m \<or> (\<exists>j < length ts. pending (ts ! j) = Some p)"
    by (auto simp: peak_inv_def s)
  show ?thesis
  proof (cases "i < length ts")
    case False
    then have "step i s = s" by (simp add: s step_def)
    then show ?thesis using assms b by (simp add: s max_absorb1)
  next
    case True
    show ?thesis
    proof (cases "pc (ts ! i)")
      case Idle
      let ?c = "concurrentRequestCount m + 1"
      have st: "step i s = (m\<lparr>concurrentRequestCount := ?c\<rparr>, ts[i := (ts ! i)\<lparr>pc := Started ?c\<rparr>])"
        using True Idle
        by (simp add: s step_def thread_step_def start_count_def expvarInt_Add_def)
      have n: "pending (ts ! i) = None" using Idle by (simp add: pending_def)
      have 3: "\<forall>j < length ts. \<forall>c. pending ((ts[i := (ts ! i)\<lparr>pc := Started ?c\<rparr>]) ! j) = Some c
                 \<longrightarrow> c \<le> max p ?c"
        by (rule pending_update_bound [where p = p]) (auto simp: pending_def intro: c)
      have 4: "max p ?c = maxConcurrentRequestCount m
               \<or> (\<exists>j < length ts. pending ((ts[i := (ts ! i)\<lparr>pc := Started ?c\<rparr>]) ! j) = Some (max p ?c))"
      proof (cases "p < ?c")
        case True
        then have "max p ?c = ?c" by simp
        moreover have "pending ((ts[i := (ts ! i)\<lparr>pc := Started ?c\<rparr>]) ! i) = Some ?c"
          using \<open>i < length ts\<close> by (simp add: pending_def)
        ultimately show ?thesis using \<open>i < length ts\<close> by metis
      next
        case False
        then have e: "max p ?c = p" by simp
        from d show ?thesis
        proof
          assume "p = maxConcurrentRequestCount m"
          then show ?thesis using e by simp
        next
          assume "\<exists>j < length ts. pending (ts ! j) = Some p"
          then obtain j where j: "j < length ts" "pending (ts ! j) = Some p" by blast
          then have "j \<noteq> i" using n by auto
          then have "pending ((ts[i := (ts ! i)\<lparr>pc := Started ?c\<rparr>]) ! j) = Some p"
            using j by simp
          then show ?thesis using e j(1) by metis
        qed
      qed
      show ?thesis
        unfolding st peak_inv_def using a b 3 4 by (simp add: max_def)
    next
      case (Started k)
      have st: "step i s = (m\<lparr>totalRequestCount := totalRequestCount m + 1\<rparr>,
                            ts[i := (ts ! i)\<lparr>pc := Counted k\<rparr>])"
        using True Started
        by (simp add: s step_def thread_step_def start_total_def expvarInt_Add_def)
      have pk: "pending (ts ! i) = Some k" using Started by (simp add: pending_def)
      have 3: "\<forall>j < length ts. \<forall>c. pending ((ts[i := (ts ! i)\<lparr>pc := Counted k\<rparr>]) ! j) = Some c
                 \<longrightarrow> c \<le> p"
        using c [OF True pk]
        by (intro pending_update_bound [where p = p]) (auto simp: pending_def intro: c)
      have 4: "p = maxConcurrentRequestCount m
               \<or> (\<exists>j < length ts. pending ((ts[i := (ts ! i)\<lparr>pc := Counted k\<rparr>]) ! j) = Some p)"
        using d
      proof
        assume "p = maxConcurrentRequestCount m"
        then show ?thesis by simp
      next
        assume "\<exists>j < length ts. pending (ts ! j) = Some p"
        then obtain j where j: "j < length ts" "pending (ts ! j) = Some p" by blast
        have "pending ((ts[i := (ts ! i)\<lparr>pc := Counted k\<rparr>]) ! j) = Some p"
        proof (cases "j = i")
          case True
          then have "k = p" using j pk by simp
          then show ?thesis using True j(1) by (simp add: pending_def)
        next
          case False
          then show ?thesis using j by simp
        qed
        then show ?thesis using j(1) by blast
      qed
      show ?thesis
        unfolding st peak_inv_def using a b 3 4 by (simp add: max_absorb1)
    next
      case (Counted k)
      let ?mx = "expvarMaxInt_Update k (maxConcurrentRequestCount m)"
      have st: "step i s = (m\<lparr>maxConcurrentRequestCount := ?mx, updates := k # updates m\<rparr>,
                            ts[i := (ts ! i)\<lparr>pc := Handling, starts := Suc (starts (ts ! i))\<rparr>])"
        using True Counted
        by (simp add: s step_def thread_step_def start_update_def)
      have pk: "pending (ts ! i) = Some k" using Counted by (simp add: pending_def)
      have kp: "k \<le> p" using c [OF True pk] .
      have mx: "?mx = max (maxConcurrentRequestCount m) k"
        by (simp add: expvarMaxInt_Update_def max_def)
      have 1: "?mx \<le> p" using a kp mx by simp
      have 3: "\<forall>j < length ts. \<forall>c.
                 pending ((ts[i := (ts ! i)\<lparr>pc := Handling, starts := Suc (starts (ts ! i))\<rparr>]) ! j) = Some c
                 \<longrightarrow> c \<le> p"
        by (rule pending_update_bound [where p = p]) (auto simp: pending_def intro: c)
      have 4: "p = ?mx
               \<or> (\<exists>j < length ts.
                     pending ((ts[i := (ts ! i)\<lparr>pc := Handling, starts := Suc (starts (ts ! i))\<rparr>]) ! j) = Some p)"
        using d
      proof
        assume "p = maxConcurrentRequestCount m"
        then show ?thesis using mx kp by simp
      next
        assume "\<exists>j < length ts. pending (ts ! j) = Some p"
        then obtain j where j: "j < length ts" "pending (ts ! j) = Some p" by blast
        show ?thesis
        proof (cases "j = i")
          case True
          then have "k = p" using j pk by simp
          then have "p = ?mx" using mx a by simp
          then show ?thesis by simp
        next
          case False
          then have "pending ((ts[i := (ts ! i)\<lparr>pc := Handling, starts := Suc (starts (ts ! i))\<rparr>]) ! j) = Some p"
            using j by simp
          then show ?thesis using j(1) by blast
        qed
      qed
      show ?thesis
        unfolding st peak_inv_def using 1 b 3 4 by (simp add: max_absorb1)
    next
      case Handling
      have st: "step i s = (m\<lparr>concurrentRequestCount := concurrentRequestCount m - 1\<rparr>,
                            ts[i := (ts ! i)\<lparr>pc := Idle, finishes := Suc (finishes (ts ! i))\<rparr>])"
        using True Handling
        by (simp add: s step_def thread_step_def onHandleRequestFinish_def expvarInt_Add_def)
      have n: "pending (ts ! i) = None" using Handling by (simp add: pending_def)
      have 3: "\<forall>j < length ts. \<forall>c.
                 pending ((ts[i := (ts ! i)\<lparr>pc := Idle, finishes := Suc (finishes (ts ! i))\<rparr>]) ! j) = Some c
                 \<longrightarrow> c \<le> p"
        by (rule pending_update_bound [where p = p]) (auto simp: pending_def intro: c)
      have 4: "p = maxConcurrentRequestCount m
               \<or> (\<exists>j < length ts.
                     pending ((ts[i := (ts ! i)\<lparr>pc := Idle, finishes := Suc (finishes (ts ! i))\<rparr>]) ! j) = Some p)"
        using d
      proof
        assume "p = maxConcurrentRequestCount m"
        then show ?thesis by simp
      next
        assume "\<exists>j < length ts. pending (ts ! j) = Some p"
        then obtain j where j: "j < length ts" "pending (ts ! j) = Some p" by blast
        then have "j \<noteq> i" using n by auto
        then have "pending ((ts[i := (ts ! i)\<lparr>pc := Idle, finishes := Suc (finishes (ts ! i))\<rparr>]) ! j) = Some p"
          using j by simp
        then show ?thesis using j(1) by blast
      qed
      have e: "max p (concurrentRequestCount m - 1) = p" using b by simp
      show ?thesis
        unfolding st peak_inv_def using a b 3 4 by (simp add: e)
    qed
  qed
qed

fun run_peak :: "nat list \<Rightarrow> system \<Rightarrow> int \<Rightarrow> int" where
  "run_peak [] s p = p"
| "run_peak (i # sched) s p =
     run_peak sched (step i s) (max p (concurrentRequestCount (fst (step i s))))"

lemma run_peak_eq:
  "run_peak sched s (max p (concurrentRequestCount (fst s))) = max p (peak_along sched s)"
proof (induction sched arbitrary: s p)
  case Nil
  show ?case by simp
next
  case (Cons i sched)
  have "run_peak (i # sched) s (max p (concurrentRequestCount (fst s)))
      = run_peak sched (step i s)
          (max (max p (concurrentRequestCount (fst s))) (concurrentRequestCount (fst (step i s))))"
    by simp
  also have "\<dots> = max (max p (concurrentRequestCount (fst s))) (peak_along sched (step i s))"
    by (rule Cons.IH)
  finally show ?case by (simp add: max.assoc)
qed

lemma peak_inv_run:
  "peak_inv s p \<Longrightarrow> peak_inv (run sched s) (run_peak sched s p)"
proof (induction sched arbitrary: s p)
  case Nil
  then show ?case by simp
next
  case (Cons i sched)
  from peak_inv_step [OF Cons.prems, of i]
  show ?case by (simp add: Cons.IH)
qed

lemma peak_inv_init: "peak_inv (init M) 0"
  by (simp add: peak_inv_def init_def pending_def)

lemma peak_along_init: "peak_inv (run sched (init M)) (peak_along sched (init M))"
proof -
  have "run_peak sched (init M) (max 0 (concurrentRequestCount (fst (init M))))
      = max 0 (peak_along sched (init M))"
    by (rule run_peak_eq)
  moreover have "0 \<le> peak_along sched (init M)"
    by (cases sched) (simp_all add: init_def)
  ultimately have "run_peak sched (init M) 0 = peak_along sched (init M)"
    by (simp add: init_def)
  then show ?thesis using peak_inv_run [OF peak_inv_init, of sched M] by simp
qed

lemma max_step_mono:
  "maxConcurrentRequestCount (fst s) \<le> maxConcurrentRequestCount (fst (step i s))"
proof -
  obtain m ts where s: "s = (m, ts)" by (cases s)
  have "maxConcurrentRequestCount m \<le> maxConcurrentRequestCount (snd (thread_step t m))" for t
    by (cases "pc t")
       (simp_all add: thread_step_def start_count_def start_total_def start_update_def
          onHandleRequestFinish_def expvarInt_Add_def expvarMaxInt_Update_def)
  from this [of "ts ! i"] show ?thesis
    by (cases "thread_step (ts ! i) m") (simp add: s step_def)
qed

lemma max_run_mono:
  "maxConcurrentRequestCount (fst s) \<le> maxConcurrentRequestCount (fst (run sched s))"
proof (induction sched arbitrary: s)
  case Nil
  show ?case by simp
next
  case (Cons i sched)
  have "maxConcurrentRequestCount (fst s) \<le> maxConcurrentRequestCount (fst (step i s))"
    by (rule max_step_mono)
  also have "\<dots> \<le> maxConcurrentRequestCount (fst (run sched (step i s)))"
    by (rule Cons.IH)
  finally show ?case by simp
qed

lemma run_append: "run (sched @ rest) s = run rest (run sched s)"
  by (induction sched arbitrary: s) simp_all

lemma sum_busy:
  "sum_list (map busy ts)
     = sum_list (map (\<lambda>t. int (starts t)) ts)
       + sum_list (map (\<lambda>t. if in_start t then 1 else 0) ts)
       - sum_list (map (\<lambda>t. int (finishes t)) ts)"
  by (induction ts) (simp_all add: busy_def)

lemma busy_nonneg: "balanced t \<Longrightarrow> 0 \<le> busy t"
  by (simp add: busy_def balanced_def)

lemma inflight_decomposition:
  assumes "metrics_inv s"
  shows "concurrentRequestCount (fst s)
           = completed_starts s + starts_in_progress s - completed_finishes s"
    and "0 \<le> concurrentRequestCount (fst s)"
proof -
  show "concurrentRequestCount (fst s)
           = completed_starts s + starts_in_progress s - completed_finishes s"
    using assms
    by (simp add: metrics_inv_def sum_busy completed_starts_def starts_in_progress_def
        completed_finishes_def)
  have "0 \<le> sum_list (map busy (snd s))"
    using assms by (intro sum_list_nonneg) (auto simp: metrics_inv_def busy_nonneg)
  then show "0 \<le> concurrentRequestCount (fst s)"
    using assms by (simp add: metrics_inv_def)
qed

lemma sum_list_const:
  fixes f :: "'a \<Rightarrow> int"
  shows "\<forall>x \<in> set xs. f x = c \<Longrightarrow> sum_list (map f xs) = c * int (length xs)"
  by (induction xs) (simp_all add: algebra_simps)

lemma quiescent_counts:
  assumes "metrics_inv s" and "\<forall>t \<in> set (snd s). pc t = Idle \<and> finishes t = K"
  shows "concurrentRequestCount (fst s) = 0"
    and "totalRequestCount (fst s) = int K * int (length (snd s))"
proof -
  have b: "\<forall>t \<in> set (snd s). busy t = 0"
    using assms by (auto simp: metrics_inv_def busy_def balanced_def in_start_def)
  have c: "\<forall>t \<in> set (snd s). counted t = int K"
    using assms by (auto simp: counted_def)
  have "sum_list (map busy (snd s)) = 0" using sum_list_const [OF b] by simp
  then show "concurrentRequestCount (fst s) = 0"
    using assms(1) by (simp add: metrics_inv_def)
  have "sum_list (map counted (snd s)) = int K * int (length (snd s))"
    using c by (rule sum_list_const)
  then show "totalRequestCount (fst s) = int K * int (length (snd s))"
    using assms(1) by (simp add: metrics_inv_def)
qed

lemma length_init [simp]: "length (snd (init M)) = M"
  by (simp add: init_def)

lemma no_start_in_progress:
  assumes "starts_in_progress s = 0"
  shows "\<forall>j < length (snd s). pending (snd s ! j) = None"
proof -
  have *: "sum_list (map (\<lambda>t. if in_start t then 1 else 0 :: int) ts) = 0 \<Longrightarrow>
        \<forall>t \<in> set ts. \<not> in_start t" for ts
  proof (induction ts)
    case Nil
    show ?case by simp
  next
    case (Cons a ts)
    have n: "0 \<le> sum_list (map (\<lambda>t. if in_start t then 1 else 0 :: int) ts)"
      by (intro sum_list_nonneg) auto
    from Cons.prems n have "\<not> in_start a"
      and "sum_list (map (\<lambda>t. if in_start t then 1 else 0 :: int) ts) = 0"
      by (auto split: if_splits)
    then show ?case using Cons.IH by simp
  qed
  from * [of "snd s"] assms have "\<forall>t \<in> set (snd s). \<not> in_start t"
    by (simp add: starts_in_progress_def)
  then show ?thesis
    by (auto simp: in_start_def pending_def split: pc.splits)
qed

subsection \<open>The in-flight counter\<close>

text \<open>
  C4, as stated, fails. The claim equates the in-flight counter with the
  completed calls of \<open>onHandleRequestStart\<close> minus the completed calls of
  \<open>onHandleRequestFinish\<close> under any interleaving. The counter is incremented by
  the first statement of \<open>onHandleRequestStart\<close>, two statements before the call
  completes: one caller that has run only that statement leaves the counter at 1
  with no call completed.
\<close>

theorem inflight_completed_calls_counterexample:
  "concurrentRequestCount (fst (run [0] (init 1))) = 1
   \<and> completed_starts (run [0] (init 1)) = 0
   \<and> completed_finishes (run [0] (init 1)) = 0
   \<and> concurrentRequestCount (fst (run [0] (init 1)))
       \<noteq> completed_starts (run [0] (init 1)) - completed_finishes (run [0] (init 1))"
  by (simp add: init_def step_def thread_step_def start_count_def expvarInt_Add_def
      completed_starts_def completed_finishes_def)

text \<open>
  C4, amended. Under any interleaving of the statements, the in-flight counter
  equals the completed calls of \<open>onHandleRequestStart\<close> plus the calls of it in
  progress, minus the completed calls of \<open>onHandleRequestFinish\<close>, and is never
  negative. Whenever no \<open>onHandleRequestStart\<close> is in progress it equals the
  completed starts minus the completed finishes. In particular, once each of
  \<open>M\<close> callers has completed \<open>K\<close> matched pairs and is idle, the in-flight
  counter is 0 and the total counter is \<open>K * M\<close>.
\<close>

theorem inflight_counter_invariant:
  "concurrentRequestCount (fst (run sched (init M)))
     = completed_starts (run sched (init M)) + starts_in_progress (run sched (init M))
       - completed_finishes (run sched (init M))
   \<and> 0 \<le> concurrentRequestCount (fst (run sched (init M)))
   \<and> (starts_in_progress (run sched (init M)) = 0 \<longrightarrow>
        concurrentRequestCount (fst (run sched (init M)))
          = completed_starts (run sched (init M)) - completed_finishes (run sched (init M)))
   \<and> ((\<forall>t \<in> set (snd (run sched (init M))). pc t = Idle \<and> finishes t = K) \<longrightarrow>
        concurrentRequestCount (fst (run sched (init M))) = 0
        \<and> totalRequestCount (fst (run sched (init M))) = int K * int M)"
proof -
  let ?s = "run sched (init M)"
  have inv: "metrics_inv ?s" by (rule metrics_inv_run [OF metrics_inv_init])
  note d = inflight_decomposition [OF inv]
  have q: "(\<forall>t \<in> set (snd ?s). pc t = Idle \<and> finishes t = K) \<longrightarrow>
        concurrentRequestCount (fst ?s) = 0 \<and> totalRequestCount (fst ?s) = int K * int M"
    using quiescent_counts [OF inv, of K] by simp
  from d q show ?thesis by simp
qed

theorem inflight_counter_invariant_witness:
  "starts_in_progress (run [0, 1, 0, 1, 0, 1, 0, 1] (init 2)) = 0
   \<and> snd (run [0, 1, 0, 1, 0, 1, 0, 1] (init 2))
       = [\<lparr>pc = Idle, starts = 1, finishes = 1\<rparr>, \<lparr>pc = Idle, starts = 1, finishes = 1\<rparr>]
   \<and> concurrentRequestCount (fst (run [0, 1, 0, 1, 0, 1, 0, 1] (init 2))) = 0
   \<and> totalRequestCount (fst (run [0, 1, 0, 1, 0, 1, 0, 1] (init 2))) = 2"
proof -
  let ?s = "run [0, 1, 0, 1, 0, 1, 0, 1] (init 2)"
  have ts: "snd ?s = [\<lparr>pc = Idle, starts = 1, finishes = 1\<rparr>, \<lparr>pc = Idle, starts = 1, finishes = 1\<rparr>]"
    by (simp add: init_def step_def thread_step_def start_count_def start_total_def
        start_update_def onHandleRequestFinish_def expvarInt_Add_def numeral_2_eq_2)
  have p: "starts_in_progress ?s = 0"
    unfolding starts_in_progress_def ts by (simp add: in_start_def)
  have i: "\<forall>t \<in> set (snd ?s). pc t = Idle \<and> finishes t = 1"
    unfolding ts by simp
  from inflight_counter_invariant [of "[0, 1, 0, 1, 0, 1, 0, 1]" 2 1, THEN conjunct2,
    THEN conjunct2, THEN conjunct2, THEN mp, OF i]
  have "concurrentRequestCount (fst ?s) = 0 \<and> totalRequestCount (fst ?s) = 2"
    by simp
  then show ?thesis using ts p by blast
qed

subsection \<open>The maximum\<close>

text \<open>
  C5, as stated, fails. The claim has the stored maximum equal the historical
  peak of the in-flight counter under any interleaving. \<open>onHandleRequestStart\<close>
  increments the in-flight counter in its first statement and passes the value
  to \<open>Update\<close> only in its third: with two callers, when both have incremented
  and the first has returned, the counter and its peak are 2 and the stored
  maximum is 1; with one caller that has only incremented, they are 1 and 0.
\<close>

theorem max_lags_peak_counterexample:
  "maxConcurrentRequestCount (fst (run [0, 1, 0, 0] (init 2))) = 1
   \<and> peak_along [0, 1, 0, 0] (init 2) = 2
   \<and> concurrentRequestCount (fst (run [0, 1, 0, 0] (init 2))) = 2
   \<and> completed_starts (run [0, 1, 0, 0] (init 2)) = 1
   \<and> maxConcurrentRequestCount (fst (run [0, 1, 0, 0] (init 2))) \<noteq> peak_along [0, 1, 0, 0] (init 2)
   \<and> maxConcurrentRequestCount (fst (run [0] (init 1))) = 0
   \<and> peak_along [0] (init 1) = 1"
  by (simp add: init_def step_def thread_step_def start_count_def start_total_def
      start_update_def expvarInt_Add_def expvarMaxInt_Update_def completed_starts_def
      numeral_2_eq_2)

text \<open>
  C5, amended. \<open>Update\<close> raises the stored maximum to the candidate if and only
  if the candidate exceeds it. Over any interleaving, continued in any way from
  any state, the stored maximum never decreases; it is at least every value that
  has been passed to \<open>Update\<close>; it never exceeds the historical peak of the
  in-flight counter, and under any interleaving of concurrent calls of
  \<open>onHandleRequestStart\<close> it equals that peak whenever none of them is in
  progress. While a call is between its increment and its \<open>Update\<close> the stored
  maximum can lag behind the peak.
\<close>

theorem max_inflight_monotone_peak:
  "(\<forall>c m. (m < c \<longrightarrow> expvarMaxInt_Update c m = c) \<and> (\<not> m < c \<longrightarrow> expvarMaxInt_Update c m = m))
   \<and> (\<forall>sched rest s.
        maxConcurrentRequestCount (fst (run sched s))
          \<le> maxConcurrentRequestCount (fst (run (sched @ rest) s)))
   \<and> (\<forall>sched M. \<forall>c \<in> set (updates (fst (run sched (init M)))).
        c \<le> maxConcurrentRequestCount (fst (run sched (init M))))
   \<and> (\<forall>sched M. maxConcurrentRequestCount (fst (run sched (init M))) \<le> peak_along sched (init M))
   \<and> (\<forall>sched M. starts_in_progress (run sched (init M)) = 0 \<longrightarrow>
        maxConcurrentRequestCount (fst (run sched (init M))) = peak_along sched (init M))"
proof -
  have a: "\<forall>c m. (m < c \<longrightarrow> expvarMaxInt_Update c m = c) \<and> (\<not> m < c \<longrightarrow> expvarMaxInt_Update c m = m)"
    by (simp add: expvarMaxInt_Update_def)
  have b: "\<forall>sched rest s.
        maxConcurrentRequestCount (fst (run sched s))
          \<le> maxConcurrentRequestCount (fst (run (sched @ rest) s))"
    by (simp add: run_append max_run_mono)
  have c: "\<forall>sched M. \<forall>c \<in> set (updates (fst (run sched (init M)))).
        c \<le> maxConcurrentRequestCount (fst (run sched (init M)))"
    using metrics_inv_run [OF metrics_inv_init] by (simp add: metrics_inv_def)
  have d: "\<forall>sched M. maxConcurrentRequestCount (fst (run sched (init M))) \<le> peak_along sched (init M)"
    using peak_along_init by (simp add: peak_inv_def)
  have e: "\<forall>sched M. starts_in_progress (run sched (init M)) = 0 \<longrightarrow>
        maxConcurrentRequestCount (fst (run sched (init M))) = peak_along sched (init M)"
  proof (intro allI impI)
    fix sched M
    assume "starts_in_progress (run sched (init M)) = 0"
    then have n: "\<forall>j < length (snd (run sched (init M))).
        pending (snd (run sched (init M)) ! j) = None"
      by (rule no_start_in_progress)
    have "peak_along sched (init M) = maxConcurrentRequestCount (fst (run sched (init M)))
        \<or> (\<exists>j < length (snd (run sched (init M))).
              pending (snd (run sched (init M)) ! j) = Some (peak_along sched (init M)))"
      using peak_along_init [of sched M] by (simp add: peak_inv_def)
    then show "maxConcurrentRequestCount (fst (run sched (init M))) = peak_along sched (init M)"
      using n by auto
  qed
  from a b c d e show ?thesis by blast
qed

theorem max_inflight_monotone_peak_witness:
  "starts_in_progress (run [0, 1, 0, 1, 0, 1, 0] (init 2)) = 0
   \<and> peak_along [0, 1, 0, 1, 0, 1, 0] (init 2) = 2
   \<and> maxConcurrentRequestCount (fst (run [0, 1, 0, 1, 0, 1, 0] (init 2))) = 2
   \<and> concurrentRequestCount (fst (run [0, 1, 0, 1, 0, 1, 0] (init 2))) = 1
   \<and> updates (fst (run [0, 1, 0, 1, 0, 1, 0] (init 2))) = [2, 1]
   \<and> expvarMaxInt_Update 2 1 = 2 \<and> expvarMaxInt_Update 1 2 = 2"
proof -
  let ?sc = "[0, 1, 0, 1, 0, 1, 0] :: nat list"
  note ev = init_def step_def thread_step_def start_count_def start_total_def
    start_update_def onHandleRequestFinish_def expvarInt_Add_def expvarMaxInt_Update_def
    numeral_2_eq_2
  note c1 = conjunct1 and c2 = conjunct2
  note T = max_inflight_monotone_peak
  have s: "run ?sc (init 2)
      = (\<lparr>totalRequestCount = 2, concurrentRequestCount = 1, maxConcurrentRequestCount = 2,
           updates = [2, 1]\<rparr>,
         [\<lparr>pc = Idle, starts = 1, finishes = 1\<rparr>, \<lparr>pc = Handling, starts = 1, finishes = 0\<rparr>])"
    by (simp add: ev)
  have p: "starts_in_progress (run ?sc (init 2)) = 0"
    unfolding s starts_in_progress_def by (simp add: in_start_def)
  have k: "peak_along ?sc (init 2) = 2"
    by (simp add: ev)
  have "maxConcurrentRequestCount (fst (run ?sc (init 2))) = peak_along ?sc (init 2)"
    using p by (rule T [THEN c2, THEN c2, THEN c2, THEN c2, rule_format])
  then have m: "maxConcurrentRequestCount (fst (run ?sc (init 2))) = 2"
    by (simp only: k)
  have c: "concurrentRequestCount (fst (run ?sc (init 2))) = 1"
    unfolding s by simp
  have u: "updates (fst (run ?sc (init 2))) = [2, 1]"
    unfolding s by simp
  have u1: "expvarMaxInt_Update 2 1 = 2"
    using T [THEN c1, rule_format, of 1 2] by simp
  have u2: "expvarMaxInt_Update 1 2 = 2"
    using T [THEN c1, rule_format, of 2 1] by simp
  from p k m c u u1 u2 show ?thesis by (intro conjI)
qed

end
